theory Spec2Isabelle
  imports Complex_Main "HOL-Library.AList"
begin

section \<open>HyperWatch: connection backoff\<close>

text \<open>
  \<^verbatim>\<open>HyperCoreClient.connect_and_run\<close> (core/hypercore_client.py, lines 500-507)
  computes the pause before the next connection attempt from the local counter
  \<^verbatim>\<open>consecutive_failures\<close>, a Python int:
  \<^verbatim>\<open>
    if consecutive_failures <= 3:      reconnect_delay = 2
    elif consecutive_failures <= 10:   reconnect_delay = 5
    else:                              reconnect_delay = min(30, consecutive_failures)
  \<close>
\<close>

definition reconnect_delay :: "int \<Rightarrow> int" where
  "reconnect_delay consecutive_failures =
     (if consecutive_failures \<le> 3 then 2
      else if consecutive_failures \<le> 10 then 5
      else min 30 consecutive_failures)"

section \<open>HyperCoreClient (core/hypercore_client.py)\<close>

text \<open>
  The fields of the client that the connect loop, the subscriptions and the wallet
  filter read or write. \<^verbatim>\<open>subscribed_wallets\<close> is a Python set of keys
  \<^verbatim>\<open>channel_type:wallet\<close>, of which only membership is read. \<^verbatim>\<open>wallet_subscriptions\<close>
  is a dict from a channel type to a Python set of wallets; the set is kept as the list
  of its elements in the order in which they were added, because the order in which
  Python iterates a set is not a function of its elements alone. The list
  \<^verbatim>\<open>WATCHED_WALLETS\<close> comes from the configuration module and is an argument,
  \<open>watched\<close>, wherever it is read.
\<close>

record client =
  subscribed_wallets :: "string set"
  wallet_subscriptions :: "string \<rightharpoonup> string list"
  connected :: bool
  connection_healthy :: bool
  reconnect_count :: nat
  subscription_count :: nat

definition HyperCoreClient :: client where
  "HyperCoreClient =
     \<lparr>subscribed_wallets = {}, wallet_subscriptions = Map.empty, connected = False,
      connection_healthy = True, reconnect_count = 0, subscription_count = 0\<rparr>"

text \<open>
  What the network does during one iteration of the loop of \<^verbatim>\<open>connect_and_run\<close>:
  whether \<^verbatim>\<open>websockets.connect\<close> enters the \<^verbatim>\<open>async with\<close> body or raises, whether the
  socket is \<^verbatim>\<open>OPEN\<close> when the subscriptions start, whether the \<^verbatim>\<open>send\<close> of the
  subscription of a wallet to a channel type completes or raises, and whether the
  message loop ends by an exception or by the end of the iteration.
\<close>

record connection_env =
  connect_ok :: bool
  ws_open :: bool
  send_ok :: "string \<Rightarrow> string \<Rightarrow> bool"
  listen_raises :: bool

definition channel_types :: "string list" where
  "channel_types = [''userFills'', ''userEvents'', ''orderUpdates'']"

text \<open>\<^verbatim>\<open>set.add\<close> on the list of the elements of a set: an element already there is not added.\<close>

definition set_add :: "string \<Rightarrow> string list \<Rightarrow> string list" where
  "set_add x xs = (if x \<in> set xs then xs else xs @ [x])"

text \<open>\<^verbatim>\<open>subscribe_to_wallet_channel\<close>: the new client and the returned bool.\<close>

definition subscribe_to_wallet_channel ::
  "connection_env \<Rightarrow> client \<Rightarrow> string \<Rightarrow> string \<Rightarrow> client \<times> bool" where
  "subscribe_to_wallet_channel env st wallet channel_type =
     (let sub_key = channel_type @ '':'' @ wallet
      in if sub_key \<in> subscribed_wallets st then (st, True)
         else if send_ok env wallet channel_type then
           (st\<lparr>subscribed_wallets := insert sub_key (subscribed_wallets st),
               wallet_subscriptions := (wallet_subscriptions st)
                 (channel_type \<mapsto> set_add wallet
                    (case wallet_subscriptions st channel_type of None \<Rightarrow> [] | Some ws \<Rightarrow> ws)),
               subscription_count := subscription_count st + 1\<rparr>, True)
         else (st, False))"

text \<open>
  \<^verbatim>\<open>subscribe_to_all_wallets\<close>: the two nested loops counting the successes, and the
  result \<^verbatim>\<open>success_count > 0\<close> (false at once when the socket is not open).
\<close>

fun subscribe_channels ::
  "connection_env \<Rightarrow> string \<Rightarrow> string list \<Rightarrow> client \<times> nat \<Rightarrow> client \<times> nat" where
  "subscribe_channels env wallet [] acc = acc"
| "subscribe_channels env wallet (channel_type # rest) (st, success_count) =
     (let (st1, success) = subscribe_to_wallet_channel env st wallet channel_type
      in subscribe_channels env wallet rest
           (st1, if success then success_count + 1 else success_count))"

fun subscribe_wallets ::
  "connection_env \<Rightarrow> string list \<Rightarrow> client \<times> nat \<Rightarrow> client \<times> nat" where
  "subscribe_wallets env [] acc = acc"
| "subscribe_wallets env (wallet # rest) acc =
     subscribe_wallets env rest (subscribe_channels env wallet channel_types acc)"

definition subscribe_to_all_wallets ::
  "string list \<Rightarrow> connection_env \<Rightarrow> client \<Rightarrow> client \<times> bool" where
  "subscribe_to_all_wallets watched env st =
     (if \<not> ws_open env then (st, False)
      else
        (let (st1, success_count) = subscribe_wallets env watched (st, 0)
         in if success_count = 0 then (st1, False) else (st1, success_count > 0)))"

text \<open>
  One iteration of the \<^verbatim>\<open>while not self.is_shutting_down\<close> loop of \<^verbatim>\<open>connect_and_run\<close>
  with the local counter \<^verbatim>\<open>consecutive_failures\<close>, while no shutdown is requested. The
  result is the client, the counter, and the pause slept before the next iteration;
  \<open>None\<close> when the \<^verbatim>\<open>continue\<close> after failed subscriptions skipped the pause. The two
  \<^verbatim>\<open>except\<close> clauses treat the counter alike; \<^verbatim>\<open>finally\<close> clears the two flags.
\<close>

definition disconnected :: "client \<Rightarrow> client" where
  "disconnected st = st\<lparr>connected := False, connection_healthy := False\<rparr>"

definition connect_iteration ::
  "string list \<Rightarrow> connection_env \<Rightarrow> client \<Rightarrow> int \<Rightarrow> client \<times> int \<times> int option" where
  "connect_iteration watched env st consecutive_failures =
     (if \<not> connect_ok env then
        (disconnected st, consecutive_failures + 1,
         Some (reconnect_delay (consecutive_failures + 1)))
      else
        (let st1 = st\<lparr>connected := True, connection_healthy := True,
                       reconnect_count := reconnect_count st + 1\<rparr>;
             consecutive_failures1 = 0;
             (st2, success) = subscribe_to_all_wallets watched env st1
         in if \<not> success then (disconnected st2, consecutive_failures1, None)
            else if listen_raises env then
              (disconnected st2, consecutive_failures1 + 1,
               Some (reconnect_delay (consecutive_failures1 + 1)))
            else (disconnected st2, consecutive_failures1,
                  Some (reconnect_delay consecutive_failures1))))"

subsection \<open>Wallet resolution and filtering\<close>

text \<open>
  A decoded JSON value. \<open>truthy\<close> is Python's truth value of it.
\<close>

datatype json =
  JNull
  | JBool bool
  | JNum real
  | JStr string
  | JList "json list"
  | JDict "(string \<times> json) list"

fun truthy :: "json \<Rightarrow> bool" where
  "truthy JNull = False"
| "truthy (JBool b) = b"
| "truthy (JNum x) = (x \<noteq> 0)"
| "truthy (JStr s) = (s \<noteq> [])"
| "truthy (JList xs) = (xs \<noteq> [])"
| "truthy (JDict kvs) = (kvs \<noteq> [])"

definition dict_get :: "(string \<times> json) list \<Rightarrow> string \<Rightarrow> json" where
  "dict_get kvs k = (case map_of kvs k of Some v \<Rightarrow> v | None \<Rightarrow> JNull)"

text \<open>
  What the handler takes from Python itself; each is an argument, and nothing is assumed
  of it: \<^verbatim>\<open>str()\<close> of a value that is not a string, \<^verbatim>\<open>str.strip()\<close> and \<^verbatim>\<open>str.lower()\<close>
  (both follow the Unicode tables), and the element that \<^verbatim>\<open>list(s)[0]\<close> yields for a
  set \<^verbatim>\<open>s\<close>, given the elements of the set in the order in which they were added. Python
  leaves the iteration order of a set open; CPython walks the hash table, whose layout
  depends on the hashes of the strings (randomised per process) and, where two hashes
  fall on the same slot, on the order of insertion.
\<close>

record python =
  py_str :: "json \<Rightarrow> string"
  py_strip :: "string \<Rightarrow> string"
  py_lower :: "string \<Rightarrow> string"
  py_set_first :: "string list \<Rightarrow> string"

definition to_str :: "python \<Rightarrow> json \<Rightarrow> string" where
  "to_str py v = (case v of JStr s \<Rightarrow> s | _ \<Rightarrow> py_str py v)"

definition wallet_fields :: "string list" where
  "wallet_fields = [''user'', ''wallet'', ''address'', ''account'', ''from'', ''to'', ''owner'',
                    ''trader'', ''userAddress'']"

text \<open>The inner function \<^verbatim>\<open>check_dict_for_wallet\<close> and its loop over the field names.\<close>

fun check_fields :: "python \<Rightarrow> (string \<times> json) list \<Rightarrow> string list \<Rightarrow> string option" where
  "check_fields py kvs [] = None"
| "check_fields py kvs (field # rest) =
     (case map_of kvs field of
        None \<Rightarrow> check_fields py kvs rest
      | Some v \<Rightarrow>
          if truthy v then
            (let wallet = py_strip py (to_str py v)
             in if wallet \<noteq> [] \<and> wallet \<notin> set [''unknown'', ''multiple_wallets'', ''0x0'', ''null'']
                then Some wallet
                else check_fields py kvs rest)
          else check_fields py kvs rest)"

definition check_dict_for_wallet :: "python \<Rightarrow> json \<Rightarrow> string option" where
  "check_dict_for_wallet py data =
     (case data of JDict kvs \<Rightarrow> check_fields py kvs wallet_fields | _ \<Rightarrow> None)"

definition extract_wallet_from_event_data ::
  "python \<Rightarrow> json \<Rightarrow> json \<Rightarrow> string option" where
  "extract_wallet_from_event_data py event_data raw_event =
     (case check_dict_for_wallet py raw_event of
        Some wallet \<Rightarrow> Some wallet
      | None \<Rightarrow>
          (case event_data of
             JList (first # others) \<Rightarrow> check_dict_for_wallet py first
           | JDict kvs \<Rightarrow>
               (case check_dict_for_wallet py event_data of
                  Some wallet \<Rightarrow> Some wallet
                | None \<Rightarrow>
                    (let nested_data = dict_get kvs ''data'';
                         wallet = (if truthy nested_data
                                   then check_dict_for_wallet py nested_data else None)
                     in case wallet of
                          Some w \<Rightarrow> Some w
                        | None \<Rightarrow>
                            (case map_of kvs ''fills'' of
                               Some (JList (fill # fills)) \<Rightarrow> check_dict_for_wallet py fill
                             | _ \<Rightarrow> None)))
           | _ \<Rightarrow> None))"

text \<open>
  \<^verbatim>\<open>watched_wallet_set\<close>, \<^verbatim>\<open>watched_wallets_original\<close> (a dict comprehension: a later
  wallet with the same lower case replaces an earlier one), \<^verbatim>\<open>is_watched_wallet\<close> and
  \<^verbatim>\<open>get_original_wallet_case\<close>.
\<close>

definition watched_wallet_set :: "python \<Rightarrow> string list \<Rightarrow> string set" where
  "watched_wallet_set py watched = set (map (py_lower py) watched)"

definition is_watched_wallet :: "python \<Rightarrow> string list \<Rightarrow> string \<Rightarrow> bool" where
  "is_watched_wallet py watched wallet =
     (if wallet = [] \<or> wallet = ''unknown'' then False
      else py_lower py wallet \<in> watched_wallet_set py watched)"

definition get_original_wallet_case :: "python \<Rightarrow> string list \<Rightarrow> string \<Rightarrow> string" where
  "get_original_wallet_case py watched wallet =
     (if wallet = [] then wallet
      else (case map_of (rev (map (\<lambda>w. (py_lower py w, w)) watched)) (py_lower py wallet) of
              Some original \<Rightarrow> original | None \<Rightarrow> wallet))"

text \<open>
  \<^verbatim>\<open>process_single_event\<close>, as far as the wallet decides: the pairs of an event and
  its wallet handed to the parser and from there to the alert engine.
\<close>

definition process_single_event ::
  "python \<Rightarrow> string list \<Rightarrow> json \<Rightarrow> string \<Rightarrow> (json \<times> string) list" where
  "process_single_event py watched event_data wallet =
     (case event_data of
        JDict kvs \<Rightarrow> if is_watched_wallet py watched wallet then [(event_data, wallet)] else []
      | _ \<Rightarrow> [])"



text \<open>
  The loop over a list payload (lines 335-346) and the dispatch on the payload's type.
\<close>

definition process_item ::
  "python \<Rightarrow> string list \<Rightarrow> (string \<times> json) list \<Rightarrow> string \<Rightarrow> json
     \<Rightarrow> (json \<times> string) list" where
  "process_item py watched raw_event wallet single_event =
     (case extract_wallet_from_event_data py single_event (JDict raw_event) of
        Some extracted_wallet \<Rightarrow>
          if is_watched_wallet py watched extracted_wallet
          then process_single_event py watched single_event
                 (get_original_wallet_case py watched extracted_wallet)
          else []
      | None \<Rightarrow> process_single_event py watched single_event wallet)"

definition process_payload ::
  "python \<Rightarrow> string list \<Rightarrow> (string \<times> json) list \<Rightarrow> string \<Rightarrow> (json \<times> string) list" where
  "process_payload py watched raw_event wallet =
     (case dict_get raw_event ''data'' of
        JList items \<Rightarrow> concat (map (process_item py watched raw_event wallet) items)
      | JDict kvs \<Rightarrow> process_single_event py watched (JDict kvs) wallet
      | _ \<Rightarrow> [])"

text \<open>
  The handler from line 322 on, for a wallet that is a string: the return on an empty
  wallet or \<^verbatim>\<open>unknown\<close>, which both branches of the resolution reach, then the payload.
\<close>

datatype handled = AttributeError | Forwarded "(json \<times> string) list"

definition process_resolved ::
  "python \<Rightarrow> string list \<Rightarrow> (string \<times> json) list \<Rightarrow> string \<Rightarrow> handled" where
  "process_resolved py watched raw_event wallet =
     (if wallet = [] \<or> wallet = ''unknown'' then Forwarded []
      else Forwarded (process_payload py watched raw_event wallet))"


definition forwarded :: "handled \<Rightarrow> (json \<times> string) list" where
  "forwarded r = (case r of Forwarded xs \<Rightarrow> xs | AttributeError \<Rightarrow> [])"

section \<open>Events\<close>

text \<open>
  An event is a Python dict. The fields below are the keys the modelled functions read;
  \<open>None\<close> is an absent key (what \<^verbatim>\<open>event.get(k, default)\<close> tests). Strings are
  byte lists and times and dollar values are reals: the rounding of Python floats is
  not modelled.
\<close>

record event =
  ev_wallet :: "string option"
  ev_user :: "string option"
  ev_coin :: "string option"
  ev_type :: "string option"
  ev_usd_value :: "real option"

section \<open>NotificationRateLimiter (notifications/dispatcher.py)\<close>

type_synonym key = "string \<times> string"

definition CHANNEL_HANDLERS :: "string list" where
  "CHANNEL_HANDLERS = [''webhook'', ''telegram'', ''discord'', ''email'']"

definition CHANNEL_COOLDOWNS :: "(string \<times> real) list" where
  "CHANNEL_COOLDOWNS = [(''webhook'', 15), (''telegram'', 45), (''discord'', 45), (''email'', 60)]"

text \<open>
  The limiter object: \<^verbatim>\<open>cooldowns\<close>, \<^verbatim>\<open>last_sent\<close> and \<^verbatim>\<open>pending_events\<close>. The last
  is an association list in insertion order, because the flush iterates over it.
\<close>

record limiter =
  cooldowns :: "(string \<times> real) list"
  last_sent :: "key \<rightharpoonup> real"
  pending_events :: "(key \<times> event list) list"

definition NotificationRateLimiter :: "(string \<times> real) list \<Rightarrow> limiter" where
  "NotificationRateLimiter cds = \<lparr>cooldowns = cds, last_sent = Map.empty, pending_events = []\<rparr>"

definition notification_rate_limiter :: limiter where
  "notification_rate_limiter = NotificationRateLimiter CHANNEL_COOLDOWNS"

text \<open>\<^verbatim>\<open>self.cooldowns.get(channel, 30)\<close> and \<^verbatim>\<open>self.last_sent.get(key, 0)\<close>.\<close>

definition cooldown_of :: "limiter \<Rightarrow> string \<Rightarrow> real" where
  "cooldown_of st channel = (case map_of (cooldowns st) channel of Some c \<Rightarrow> c | None \<Rightarrow> 30)"

definition last_time_of :: "limiter \<Rightarrow> key \<Rightarrow> real" where
  "last_time_of st k = (case last_sent st k of Some t \<Rightarrow> t | None \<Rightarrow> 0)"

text \<open>
  \<^verbatim>\<open>_get_wallet_key\<close>: \<^verbatim>\<open>wallet = event.get("wallet") or event.get("user", "global")\<close>,
  shortened to its first 8 characters plus \<^verbatim>\<open>...\<close> when longer than 8.
\<close>

definition get_wallet_key :: "event \<Rightarrow> string" where
  "get_wallet_key e =
     (let wallet =
        (case ev_wallet e of
           Some w \<Rightarrow> if w \<noteq> [] then w else (case ev_user e of Some u \<Rightarrow> u | None \<Rightarrow> ''global'')
         | None \<Rightarrow> (case ev_user e of Some u \<Rightarrow> u | None \<Rightarrow> ''global''))
      in if wallet \<noteq> [] \<and> length wallet > 8 then take 8 wallet @ ''...'' else wallet)"

definition get_key :: "string \<Rightarrow> string \<Rightarrow> key" where
  "get_key channel wallet_key = (channel, wallet_key)"

text \<open>
  \<^verbatim>\<open>can_send_notification\<close>: the check and, when it is positive, the write of
  \<^verbatim>\<open>last_sent[key] = now\<close>. The clock reading \<open>now\<close> is an argument.
\<close>

definition can_send_notification :: "limiter \<Rightarrow> real \<Rightarrow> string \<Rightarrow> string \<Rightarrow> limiter \<times> bool" where
  "can_send_notification st now channel wallet_key =
     (let k = get_key channel wallet_key;
          last_time = last_time_of st k;
          cooldown = cooldown_of st channel;
          can_send = (now - last_time > cooldown)
      in if can_send then (st\<lparr>last_sent := (last_sent st)(k \<mapsto> now)\<rparr>, True)
         else (st, False))"

definition get_pending_events :: "limiter \<Rightarrow> string \<Rightarrow> string \<Rightarrow> event list" where
  "get_pending_events st channel wallet_key =
     (case map_of (pending_events st) (get_key channel wallet_key) of
        Some evs \<Rightarrow> evs | None \<Rightarrow> [])"

definition add_pending_event :: "limiter \<Rightarrow> string \<Rightarrow> string \<Rightarrow> event \<Rightarrow> limiter" where
  "add_pending_event st channel wallet_key e =
     (let k = get_key channel wallet_key;
          old = (case map_of (pending_events st) k of Some evs \<Rightarrow> evs | None \<Rightarrow> [])
      in st\<lparr>pending_events := AList.update k (old @ [e]) (pending_events st)\<rparr>)"

definition clear_pending_events :: "limiter \<Rightarrow> string \<Rightarrow> string \<Rightarrow> limiter" where
  "clear_pending_events st channel wallet_key =
     st\<lparr>pending_events := AList.delete (get_key channel wallet_key) (pending_events st)\<rparr>"

text \<open>
  \<^verbatim>\<open>_send_notification\<close>. A channel without a handler returns before anything is
  sent. Otherwise the message is rendered and the handler called inside
  \<^verbatim>\<open>try ... except Exception\<close>, which only logs. The formatter and the channel senders
  are outside this model: \<open>env channel events\<close> says how rendering and the handler call
  end, by an exception (\<open>Raises\<close>) or by the handler's return (\<open>Returns ok\<close>, where
  \<open>ok\<close> says whether the handler reports a delivery; the senders under
  \<^verbatim>\<open>notifications/\<close> catch their own errors and return \<^verbatim>\<open>False\<close> or \<^verbatim>\<open>None\<close>).
  \<^verbatim>\<open>_send_notification\<close> ignores what the handler returns. With an empty list
  \<^verbatim>\<open>events[-1]\<close> raises IndexError, which the same \<^verbatim>\<open>except\<close> catches.
\<close>

datatype handler_outcome = Raises | Returns bool

type_synonym handlers = "string \<Rightarrow> event list \<Rightarrow> handler_outcome"

datatype send_result = Completed bool | Failed | Unsupported

definition send_notification :: "handlers \<Rightarrow> string \<Rightarrow> event list \<Rightarrow> send_result" where
  "send_notification env channel events =
     (if channel \<notin> set CHANNEL_HANDLERS then Unsupported
      else if events = [] then Failed
      else (case env channel events of Raises \<Rightarrow> Failed | Returns ok \<Rightarrow> Completed ok))"

text \<open>
  One call of \<^verbatim>\<open>_send_notification\<close> as the limiter makes it: when (the clock of the
  step that makes the call), for which key, with which events, and how it ended.
\<close>

record send_attempt =
  at_time :: real
  at_channel :: string
  at_wallet_key :: string
  at_events :: "event list"
  at_result :: send_result

definition attempt :: "handlers \<Rightarrow> real \<Rightarrow> string \<Rightarrow> string \<Rightarrow> event list \<Rightarrow> send_attempt" where
  "attempt env t channel wallet_key events =
     \<lparr>at_time = t, at_channel = channel, at_wallet_key = wallet_key, at_events = events,
      at_result = send_notification env channel events\<rparr>"

text \<open>
  \<^verbatim>\<open>process_event_notification\<close>: returns the limiter and the send attempts made
  (none when the event was queued).
\<close>

definition process_event_notification ::
  "handlers \<Rightarrow> limiter \<Rightarrow> real \<Rightarrow> string \<Rightarrow> event \<Rightarrow> limiter \<times> send_attempt list" where
  "process_event_notification env st now channel e =
     (let wallet_key = get_wallet_key e;
          (st1, ok) = can_send_notification st now channel wallet_key
      in if ok then
           (let pending = get_pending_events st1 channel wallet_key;
                all_events = pending @ [e];
                st2 = (if pending \<noteq> [] then clear_pending_events st1 channel wallet_key else st1)
            in (st2, [attempt env now channel wallet_key all_events]))
         else (add_pending_event st1 channel wallet_key e, []))"

text \<open>
  \<^verbatim>\<open>flush_pending_notifications\<close> reads the clock once, selects the keys to flush in a
  first loop (\<open>flush_select\<close>), and in a second loop, per selected key, clears the
  queue, writes \<^verbatim>\<open>last_sent[key] = now\<close> and awaits the send (\<open>flush_one\<close>; \<open>t\<close> is the
  clock when this iteration runs, \<open>now\<close> the reading taken before the first loop).
\<close>

definition flush_select :: "limiter \<Rightarrow> real \<Rightarrow> (string \<times> string \<times> event list) list" where
  "flush_select st now =
     map (\<lambda>((channel, wallet_key), events). (channel, wallet_key, events))
       (filter (\<lambda>((channel, wallet_key), events).
                  now - last_time_of st (channel, wallet_key) > cooldown_of st channel \<and> events \<noteq> [])
          (pending_events st))"

definition flush_one ::
  "handlers \<Rightarrow> real \<Rightarrow> real \<Rightarrow> limiter \<Rightarrow> string \<times> string \<times> event list
     \<Rightarrow> limiter \<times> send_attempt" where
  "flush_one env now t st item =
     (case item of (channel, wallet_key, events) \<Rightarrow>
        (let st1 = clear_pending_events st channel wallet_key;
             st2 = st1\<lparr>last_sent := (last_sent st1)(get_key channel wallet_key \<mapsto> now)\<rparr>
         in (st2, attempt env t channel wallet_key events)))"

fun flush_loop ::
  "handlers \<Rightarrow> real \<Rightarrow> limiter \<Rightarrow> (string \<times> string \<times> event list) list
     \<Rightarrow> limiter \<times> send_attempt list" where
  "flush_loop env now st [] = (st, [])"
| "flush_loop env now st (item # items) =
     (let (st1, a) = flush_one env now now st item;
          (st2, as) = flush_loop env now st1 items
      in (st2, a # as))"

text \<open>The flush when nothing else runs between its iterations.\<close>

definition flush_pending_notifications ::
  "handlers \<Rightarrow> limiter \<Rightarrow> real \<Rightarrow> limiter \<times> send_attempt list" where
  "flush_pending_notifications env st now = flush_loop env now st (flush_select st now)"

subsection \<open>The dispatcher and the periodic flush as cooperative tasks\<close>

text \<open>
  \<^verbatim>\<open>dispatch_notification\<close> (called from the receive loop) and \<^verbatim>\<open>periodic_flush_task\<close>
  are two asyncio tasks over the one \<^verbatim>\<open>notification_rate_limiter\<close>. A task runs until it
  awaits. \<^verbatim>\<open>process_event_notification\<close> awaits only in its send, after all its reads
  and writes of the limiter, so a call is one step. The flush awaits the send inside its
  second loop: after each iteration the other task may run, and the flush resumes later
  with the \<^verbatim>\<open>now\<close> and the \<^verbatim>\<open>keys_to_flush\<close> it holds in local variables. The suspended
  flush is \<open>flush_task\<close>: its \<^verbatim>\<open>now\<close> and the items of \<^verbatim>\<open>keys_to_flush\<close> not yet handled.
\<close>

record system =
  lim :: limiter
  flush_task :: "(real \<times> (string \<times> string \<times> event list) list) option"
  sends :: "send_attempt list"

datatype action =
  Dispatch real string event
  | FlushStart real
  | FlushResume real

definition initial_system :: system where
  "initial_system = \<lparr>lim = notification_rate_limiter, flush_task = None, sends = []\<rparr>"

definition flush_iteration ::
  "handlers \<Rightarrow> real \<Rightarrow> real \<Rightarrow> system
     \<Rightarrow> (string \<times> string \<times> event list) list \<Rightarrow> system" where
  "flush_iteration env now t sys items =
     (case items of
        [] \<Rightarrow> sys\<lparr>flush_task := None\<rparr>
      | item # rest \<Rightarrow>
          (let (st1, a) = flush_one env now t (lim sys) item
           in sys\<lparr>lim := st1, sends := sends sys @ [a],
                  flush_task := (if rest = [] then None else Some (now, rest))\<rparr>))"

fun step :: "handlers \<Rightarrow> system \<Rightarrow> action \<Rightarrow> system" where
  "step env sys (Dispatch t channel e) =
     (let (st1, out) = process_event_notification env (lim sys) t channel e
      in sys\<lparr>lim := st1, sends := sends sys @ out\<rparr>)"
| "step env sys (FlushStart t) =
     (case flush_task sys of
        Some running \<Rightarrow> sys
      | None \<Rightarrow> flush_iteration env t t sys (flush_select (lim sys) t))"
| "step env sys (FlushResume t) =
     (case flush_task sys of
        None \<Rightarrow> sys
      | Some (now, items) \<Rightarrow> flush_iteration env now t sys items)"

definition run :: "handlers \<Rightarrow> system \<Rightarrow> action list \<Rightarrow> system" where
  "run env sys acts = foldl (step env) sys acts"

text \<open>
  The events of the attempts whose handler returned and reported a delivery, in order.
\<close>

definition delivered :: "send_attempt list \<Rightarrow> event list" where
  "delivered as = concat (map at_events (filter (\<lambda>a. at_result a = Completed True) as))"

text \<open>
  The key of an item of \<^verbatim>\<open>keys_to_flush\<close>, and the condition of
  \<^verbatim>\<open>flush_pending_notifications\<close> (line 187) for a key.
\<close>

definition item_key :: "string \<times> string \<times> event list \<Rightarrow> key" where
  "item_key item = (case item of (channel, wallet_key, events) \<Rightarrow> (channel, wallet_key))"

definition flushable :: "limiter \<Rightarrow> real \<Rightarrow> key \<Rightarrow> bool" where
  "flushable st now k =
     (now - last_time_of st k > cooldown_of st (fst k) \<and>
      get_pending_events st (fst k) (snd k) \<noteq> [])"

subsection \<open>Example alerts and schedules\<close>

definition fill_btc :: event where
  "fill_btc = \<lparr>ev_wallet = Some ''0xABC1234567'', ev_user = None, ev_coin = Some ''BTC'',
     ev_type = Some ''user_fill'', ev_usd_value = Some 150000\<rparr>"

definition fill_eth :: event where
  "fill_eth = \<lparr>ev_wallet = Some ''0xABC1234567'', ev_user = None, ev_coin = Some ''ETH'',
     ev_type = Some ''user_fill'', ev_usd_value = Some 200\<rparr>"

definition fill_sol :: event where
  "fill_sol = \<lparr>ev_wallet = Some ''0xABC1234567'', ev_user = None, ev_coin = Some ''SOL'',
     ev_type = Some ''user_fill'', ev_usd_value = Some 300\<rparr>"

definition queued_limiter :: limiter where
  "queued_limiter =
     \<lparr>cooldowns = CHANNEL_COOLDOWNS,
      last_sent = [(''telegram'', ''0xABC123...'') \<mapsto> 1000],
      pending_events = [((''telegram'', ''0xABC123...''), [fill_eth])]\<rparr>"

definition interleaved_schedule :: "action list" where
  "interleaved_schedule =
     [Dispatch 1000 ''telegram'' fill_btc, Dispatch 1000 ''discord'' fill_btc,
      Dispatch 1010 ''telegram'' fill_eth, Dispatch 1010 ''discord'' fill_eth,
      FlushStart 1046,
      Dispatch (1046 + 1/2) ''discord'' fill_sol,
      FlushResume 1047]"

section \<open>EventDeduplicator (core/event_deduplicator.py)\<close>

text \<open>
  The object's fields. \<^verbatim>\<open>event_signatures\<close> and \<^verbatim>\<open>suppressed_events\<close> are dicts keyed by
  signature, kept as association lists in insertion order (the summaries come out in the
  order of \<^verbatim>\<open>suppressed_events\<close>).
\<close>

record dedup =
  window_seconds :: real
  max_similar_events :: int
  event_signatures :: "(string \<times> real list) list"
  suppressed_events :: "(string \<times> event list) list"
  wallet_event_counts :: "string \<rightharpoonup> int"
  last_cleanup :: real
  last_summary_time :: real
  summary_interval :: real

text \<open>
  \<^verbatim>\<open>__init__(window_seconds=120, max_similar_events=2)\<close>; \<open>t0\<close> is the clock at
  construction. The module's instance is built with a 180 second window and limit 2.
\<close>

definition EventDeduplicator :: "real \<Rightarrow> real \<Rightarrow> int \<Rightarrow> dedup" where
  "EventDeduplicator t0 window limit =
     \<lparr>window_seconds = window, max_similar_events = limit, event_signatures = [],
      suppressed_events = [], wallet_event_counts = Map.empty, last_cleanup = t0,
      last_summary_time = t0, summary_interval = 300\<rparr>"

definition event_deduplicator :: "real \<Rightarrow> dedup" where
  "event_deduplicator t0 = EventDeduplicator t0 180 2"

text \<open>The reads \<^verbatim>\<open>event.get(k, default)\<close> of the deduplicator.\<close>

definition wallet_of :: "event \<Rightarrow> string" where
  "wallet_of e = (case ev_wallet e of Some w \<Rightarrow> w | None \<Rightarrow> ''unknown'')"

definition coin_of :: "event \<Rightarrow> string" where
  "coin_of e = (case ev_coin e of Some c \<Rightarrow> c | None \<Rightarrow> ''unknown'')"

definition type_of :: "event \<Rightarrow> string" where
  "type_of e = (case ev_type e of Some t \<Rightarrow> t | None \<Rightarrow> ''unknown'')"

definition usd_value_of :: "event \<Rightarrow> real" where
  "usd_value_of e = (case ev_usd_value e of Some v \<Rightarrow> v | None \<Rightarrow> 0)"

text \<open>Python's \<^verbatim>\<open>str\<close> of an int, for the time bucket inside the f-string.\<close>

definition digit_char :: "nat \<Rightarrow> char" where
  "digit_char d = char_of (48 + d)"

function str_nat :: "nat \<Rightarrow> string" where
  "str_nat n = (if n < 10 then [digit_char n] else str_nat (n div 10) @ [digit_char (n mod 10)])"
  by pat_completeness auto
termination
  by (relation "measure id") auto

definition str_int :: "int \<Rightarrow> string" where
  "str_int i = (if i < 0 then CHR ''-'' # str_nat (nat (- i)) else str_nat (nat i))"

text \<open>
  \<^verbatim>\<open>_generate_signature\<close>. The value ranges and the time bucket
  \<^verbatim>\<open>int(time.time() // 300)\<close> are as in the source; \<open>md5_hex\<close> stands for
  \<^verbatim>\<open>hashlib.md5(s.encode()).hexdigest()\<close> of the standard library, and \<open>now\<close> for the clock.
\<close>

definition value_range :: "real \<Rightarrow> string" where
  "value_range usd_value =
     (if usd_value < 10 then ''micro''
      else if usd_value < 100 then ''small''
      else if usd_value < 1000 then ''medium''
      else if usd_value < 10000 then ''large''
      else if usd_value < 100000 then ''xlarge''
      else ''whale'')"

definition time_bucket :: "real \<Rightarrow> int" where
  "time_bucket now = \<lfloor>now / 300\<rfloor>"

definition signature_data :: "string \<Rightarrow> string \<Rightarrow> string \<Rightarrow> string \<Rightarrow> int \<Rightarrow> string" where
  "signature_data wallet coin event_type vrange bucket =
     wallet @ '':'' @ coin @ '':'' @ event_type @ '':'' @ vrange @ '':'' @ str_int bucket"

definition generate_signature :: "(string \<Rightarrow> string) \<Rightarrow> real \<Rightarrow> event \<Rightarrow> string" where
  "generate_signature md5_hex now e =
     (let wallet = take 12 (wallet_of e);
          coin = coin_of e;
          event_type = type_of e;
          usd_value = usd_value_of e
      in take 16 (md5_hex (signature_data wallet coin event_type (value_range usd_value)
                             (time_bucket now))))"

text \<open>
  \<^verbatim>\<open>_cleanup_old_entries\<close>: at most every 120 seconds, keep per signature the
  timestamps with \<^verbatim>\<open>ts > cutoff\<close>, where \<^verbatim>\<open>cutoff = now - self.window_seconds\<close>, and
  delete a signature left without timestamps (\<open>cleaned_signatures\<close>); then delete the
  suppressed lists of signatures no longer in \<^verbatim>\<open>event_signatures\<close>.
\<close>

definition cleaned_signatures :: "dedup \<Rightarrow> real \<Rightarrow> (string \<times> real list) list" where
  "cleaned_signatures st now =
     filter (\<lambda>(s, tss). tss \<noteq> [])
       (map (\<lambda>(s, tss). (s, filter (\<lambda>ts. ts > now - window_seconds st) tss)) (event_signatures st))"

definition cleanup_old_entries :: "dedup \<Rightarrow> real \<Rightarrow> dedup" where
  "cleanup_old_entries st now =
     (if now - last_cleanup st < 120 then st
      else
        (let sigs = cleaned_signatures st now;
             supp = filter (\<lambda>(s, evs). s \<in> fst ` set sigs) (suppressed_events st)
         in st\<lparr>event_signatures := sigs, suppressed_events := supp, last_cleanup := now\<rparr>))"

definition timestamps_of :: "dedup \<Rightarrow> string \<Rightarrow> real list" where
  "timestamps_of st s = (case map_of (event_signatures st) s of Some tss \<Rightarrow> tss | None \<Rightarrow> [])"

definition suppressed_of :: "dedup \<Rightarrow> string \<Rightarrow> event list" where
  "suppressed_of st s = (case map_of (suppressed_events st) s of Some evs \<Rightarrow> evs | None \<Rightarrow> [])"

text \<open>
  Lines 121-123 of \<^verbatim>\<open>should_allow_event\<close>: a signature not yet in
  \<^verbatim>\<open>event_signatures\<close> gets an empty list in both dicts.
\<close>

definition with_signature :: "dedup \<Rightarrow> string \<Rightarrow> dedup" where
  "with_signature st1 signature =
     (if signature \<notin> fst ` set (event_signatures st1)
      then st1\<lparr>event_signatures := AList.update signature [] (event_signatures st1),
               suppressed_events := AList.update signature [] (suppressed_events st1)\<rparr>
      else st1)"

definition record_admission :: "dedup \<Rightarrow> string \<Rightarrow> real \<Rightarrow> dedup" where
  "record_admission st s now =
     st\<lparr>event_signatures := AList.update s (timestamps_of st s @ [now]) (event_signatures st)\<rparr>"

text \<open>
  The count of lines 126-129: the stored timestamps of the signature with
  \<^verbatim>\<open>now - ts <= self.window_seconds\<close>.
\<close>

definition recent_count :: "dedup \<Rightarrow> real \<Rightarrow> string \<Rightarrow> int" where
  "recent_count st now signature =
     int (length (filter (\<lambda>ts. now - ts \<le> window_seconds st) (timestamps_of st signature)))"

text \<open>
  \<^verbatim>\<open>should_allow_event\<close>. The result is the new object and the returned bool;
  \<open>None\<close> is the KeyError of \<^verbatim>\<open>self.suppressed_events[signature]\<close> on a missing key.
  The three clock readings of one call (in the cleanup, in the signature and in
  \<^verbatim>\<open>now = time.time()\<close>) are taken to be the same \<open>now\<close>.
\<close>

definition should_allow_event ::
  "(string \<Rightarrow> string) \<Rightarrow> dedup \<Rightarrow> real \<Rightarrow> event \<Rightarrow> (dedup \<times> bool) option" where
  "should_allow_event md5_hex st0 now e =
     (let st1 = cleanup_old_entries st0 now;
          signature = generate_signature md5_hex now e;
          wallet = wallet_of e;
          usd_value = usd_value_of e;
          st2 = with_signature st1 signature;
          recent = recent_count st2 now signature
      in if usd_value \<ge> 50000 then Some (record_admission st2 signature now, True)
         else if usd_value \<ge> 10000 \<and> recent < max_similar_events st2 * 2
           then Some (record_admission st2 signature now, True)
         else if recent < max_similar_events st2
           then Some ((record_admission st2 signature now)
                        \<lparr>wallet_event_counts := (wallet_event_counts st2)
                           (wallet \<mapsto> (case wallet_event_counts st2 wallet of
                                          None \<Rightarrow> 0 | Some n \<Rightarrow> n) + 1)\<rparr>, True)
         else (case map_of (suppressed_events st2) signature of
                 None \<Rightarrow> None
               | Some evs \<Rightarrow>
                   Some (st2\<lparr>suppressed_events :=
                               AList.update signature (evs @ [e]) (suppressed_events st2)\<rparr>, False)))"

text \<open>
  \<^verbatim>\<open>get_suppressed_summary\<close>: the lookup of the signature's list, and the summary of
  a non-empty list (\<open>summarize\<close>). The returned dict is kept without its constant
  \<^verbatim>\<open>type\<close> entry and without \<^verbatim>\<open>summary_message\<close>, which is a rendering of the other
  entries. The two \<^verbatim>\<open>list(set(...))\<close> entries are sets.
\<close>

record summary =
  sum_wallet :: string
  suppressed_count :: nat
  event_types :: "string set"
  coins :: "string set"
  total_usd_value :: real
  time_window :: real
  activity_level :: string

definition summarize :: "real \<Rightarrow> event list \<Rightarrow> summary option" where
  "summarize window events =
     (case events of
        [] \<Rightarrow> None
      | e # es \<Rightarrow>
          (let total_count = length events
           in Some \<lparr>sum_wallet = wallet_of e,
                    suppressed_count = total_count,
                    event_types = set (map type_of events),
                    coins = set (map coin_of events),
                    total_usd_value = sum_list (map usd_value_of events),
                    time_window = window,
                    activity_level =
                      (if total_count \<ge> 10 then ''High Bot Activity''
                       else if total_count \<ge> 5 then ''Moderate Bot Activity''
                       else ''Similar Events'')\<rparr>))"

definition get_suppressed_summary :: "dedup \<Rightarrow> string \<Rightarrow> summary option" where
  "get_suppressed_summary st signature =
     (case map_of (suppressed_events st) signature of
        None \<Rightarrow> None
      | Some events \<Rightarrow> summarize (window_seconds st) events)"

text \<open>
  \<^verbatim>\<open>get_all_suppressed_summaries\<close>: the loop over the keys of \<^verbatim>\<open>suppressed_events\<close>
  (\<open>summaries_loop\<close>), behind the 300 second gate on \<^verbatim>\<open>last_summary_time\<close>, which
  moves only when a summary was made.
\<close>

fun summaries_loop :: "dedup \<Rightarrow> string list \<Rightarrow> summary list \<Rightarrow> dedup \<times> summary list" where
  "summaries_loop st [] summaries = (st, summaries)"
| "summaries_loop st (signature # rest) summaries =
     (case get_suppressed_summary st signature of
        None \<Rightarrow> summaries_loop st rest summaries
      | Some s \<Rightarrow>
          if suppressed_count s \<ge> 3
          then summaries_loop
                 (st\<lparr>suppressed_events := AList.update signature [] (suppressed_events st)\<rparr>)
                 rest (summaries @ [s])
          else summaries_loop st rest summaries)"

definition get_all_suppressed_summaries :: "dedup \<Rightarrow> real \<Rightarrow> dedup \<times> summary list" where
  "get_all_suppressed_summaries st now =
     (if now - last_summary_time st < summary_interval st then (st, [])
      else
        (let (st1, summaries) = summaries_loop st (map fst (suppressed_events st)) []
         in if summaries \<noteq> [] then (st1\<lparr>last_summary_time := now\<rparr>, summaries)
            else (st1, summaries)))"

text \<open>
  A sequence of \<^verbatim>\<open>should_allow_event\<close> calls, each with its clock reading; the result
  is the final object and the returned bools.
\<close>

fun run_events ::
  "(string \<Rightarrow> string) \<Rightarrow> dedup \<Rightarrow> (real \<times> event) list \<Rightarrow> (dedup \<times> bool list) option" where
  "run_events md5_hex st [] = Some (st, [])"
| "run_events md5_hex st ((now, e) # rest) =
     (case should_allow_event md5_hex st now e of
        None \<Rightarrow> None
      | Some (st1, allowed) \<Rightarrow>
          (case run_events md5_hex st1 rest of
             None \<Rightarrow> None
           | Some (st2, bs) \<Rightarrow> Some (st2, allowed # bs)))"

text \<open>
  What Python's dicts guarantee of the two association lists (one entry per key), and
  what the object maintains: the two dicts have the same keys.
\<close>

definition dedup_wf :: "dedup \<Rightarrow> bool" where
  "dedup_wf st =
     (distinct (map fst (event_signatures st)) \<and> distinct (map fst (suppressed_events st))
      \<and> fst ` set (event_signatures st) = fst ` set (suppressed_events st))"

text \<open>Line 158: the event appended to its signature's suppressed list.\<close>

definition suppress :: "dedup \<Rightarrow> string \<Rightarrow> event \<Rightarrow> dedup" where
  "suppress st2 sg e =
     st2\<lparr>suppressed_events := AList.update sg (suppressed_of st2 sg @ [e]) (suppressed_events st2)\<rparr>"

subsection \<open>Example fills\<close>

definition doge_fill :: "real \<Rightarrow> event" where
  "doge_fill v = \<lparr>ev_wallet = Some ''0xDEF4567890abcdef'', ev_user = None, ev_coin = Some ''DOGE'',
     ev_type = Some ''user_fill'', ev_usd_value = Some v\<rparr>"

text \<open>Scenario B: five 5 dollar fills within ten seconds.\<close>

definition scenario_b :: "(real \<times> event) list" where
  "scenario_b = [(1001, doge_fill 5), (1003, doge_fill 5), (1005, doge_fill 5),
                 (1007, doge_fill 5), (1009, doge_fill 5)]"


text \<open>Line 216: a summarised signature keeps its key with an empty list.\<close>

definition cleared :: "dedup \<Rightarrow> string \<Rightarrow> dedup" where
  "cleared st k = st\<lparr>suppressed_events := AList.update k [] (suppressed_events st)\<rparr>"

text \<open>An object with one signature holding three suppressed fills and one holding one.\<close>

definition bucket_example :: dedup where
  "bucket_example =
     (event_deduplicator 1000)
       \<lparr>suppressed_events :=
          [(''a1b2'', [doge_fill 5, doge_fill 6, doge_fill 7]), (''c3d4'', [doge_fill 8])]\<rparr>"

text \<open>
  The clock readings at which a sequence of calls admitted an event of the standard tier
  (a value below 10000) with a given signature.
\<close>

definition standard_admissions ::
  "(string \<Rightarrow> string) \<Rightarrow> (real \<times> event) list \<Rightarrow> bool list \<Rightarrow> string \<Rightarrow> real list" where
  "standard_admissions md5_hex tes bs sg =
     map (\<lambda>((t, e), b). t)
       (filter (\<lambda>((t, e), b). b \<and> usd_value_of e < 10000 \<and> generate_signature md5_hex t e = sg)
          (zip tes bs))"




text \<open>
  Two 5 dollar fills at the same clock reading and a third exactly \<^verbatim>\<open>window_seconds\<close>
  (180) later; and the same three with a 60000 dollar fill in between, at which the
  cleanup runs (120 seconds after the construction of the object).
\<close>

definition boundary_fills :: "(real \<times> event) list" where
  "boundary_fills = [(1000, doge_fill 5), (1000, doge_fill 5), (1180, doge_fill 5)]"

definition boundary_fills_after_cleanup :: "(real \<times> event) list" where
  "boundary_fills_after_cleanup =
     [(1000, doge_fill 5), (1000, doge_fill 5), (1120, doge_fill 60000), (1180, doge_fill 5)]"

text \<open>The signature of the fills of Scenario B.\<close>

definition scenario_b_signature :: "(string \<Rightarrow> string) \<Rightarrow> string" where
  "scenario_b_signature md5_hex = generate_signature md5_hex 1001 (doge_fill 5)"

subsection \<open>Example connections, clients and messages\<close>

text \<open>A network that connects but refuses every subscription, and one that accepts all.\<close>

definition refusing_env :: connection_env where
  "refusing_env = \<lparr>connect_ok = True, ws_open = True, send_ok = (\<lambda>wallet channel_type. False),
     listen_raises = False\<rparr>"












section \<open>Theorems\<close>

text \<open>
  C8. The reconnect delay as a function of the consecutive-failure count n is 2 seconds
  for 1 <= n <= 3, 5 seconds for 4 <= n <= 10 and min(30, n) seconds for n > 10; after
  12 failures it is 12 seconds; it is non-decreasing in n and never exceeds 30 seconds.
\<close>

theorem C8_reconnect_delay_tiers:
  "(1 \<le> n \<and> n \<le> 3 \<longrightarrow> reconnect_delay n = 2) \<and>
   (4 \<le> n \<and> n \<le> 10 \<longrightarrow> reconnect_delay n = 5) \<and>
   (10 < n \<longrightarrow> reconnect_delay n = min 30 n) \<and>
   reconnect_delay 12 = 12 \<and>
   (n \<le> m \<longrightarrow> reconnect_delay n \<le> reconnect_delay m) \<and>
   reconnect_delay n \<le> 30"
  by (auto simp add: reconnect_delay_def)

theorem C8_reconnect_delay_tiers_witness:
  "reconnect_delay 2 = 2 \<and> reconnect_delay 7 = 5 \<and> reconnect_delay 11 = 11 \<and>
   reconnect_delay 45 = 30 \<and> reconnect_delay 10 \<le> reconnect_delay 11 \<and>
   reconnect_delay 45 \<le> 30"
  using C8_reconnect_delay_tiers [of 2 2] C8_reconnect_delay_tiers [of 7 7]
    C8_reconnect_delay_tiers [of 11 11] C8_reconnect_delay_tiers [of 45 45]
    C8_reconnect_delay_tiers [of 10 11]
  by simp

subsection \<open>The notification limiter\<close>

lemma alist_filter_key:
  "distinct (map fst xs) \<Longrightarrow>
   filter (\<lambda>(k', v). k' = k \<and> P k' v) xs =
     (case map_of xs k of Some v \<Rightarrow> if P k v then [(k, v)] else [] | None \<Rightarrow> [])"
proof (induction xs)
  case Nil
  then show ?case by simp
next
  case (Cons x xs)
  obtain k' v' where x: "x = (k', v')" by (cases x)
  show ?case
  proof (cases "k' = k")
    case True
    with Cons.prems x have "k \<notin> fst ` set xs" by auto
    then have "filter (\<lambda>(k', v). k' = k \<and> P k' v) xs = []"
      by (force simp: filter_empty_conv)
    with True x show ?thesis by simp
  next
    case False
    with Cons x show ?thesis by simp
  qed
qed

lemma flush_loop_Cons_fst:
  "fst (flush_loop env now st (item # items)) =
     fst (flush_loop env now (fst (flush_one env now now st item)) items)"
  by (simp add: split_beta Let_def)

lemma flush_loop_Cons_snd:
  "snd (flush_loop env now st (item # items)) =
     snd (flush_one env now now st item) # snd (flush_loop env now (fst (flush_one env now now st item)) items)"
  by (simp add: split_beta Let_def)

lemma flush_one_fst:
  "fst (flush_one env now t st item) =
     st\<lparr>pending_events := AList.delete (item_key item) (pending_events st),
        last_sent := (last_sent st)(item_key item \<mapsto> now)\<rparr>"
  by (cases item) (simp add: flush_one_def Let_def clear_pending_events_def get_key_def item_key_def)

lemma flush_one_snd:
  "snd (flush_one env now t st item) =
     (case item of (channel, wallet_key, events) \<Rightarrow> attempt env t channel wallet_key events)"
  by (cases item) (simp add: flush_one_def Let_def)

lemma flush_loop_sends:
  "snd (flush_loop env now st items) =
     map (\<lambda>(channel, wallet_key, events). attempt env now channel wallet_key events) items"
  by (induction items arbitrary: st)
     (simp_all add: flush_loop_Cons_snd flush_one_snd del: flush_loop.simps(2))

lemma flush_loop_pending:
  "map_of (pending_events (fst (flush_loop env now st items))) k =
     (if k \<in> item_key ` set items then None else map_of (pending_events st) k)"
  by (induction items arbitrary: st)
     (simp_all add: flush_loop_Cons_fst flush_one_fst AList.delete_conv' del: flush_loop.simps(2))

lemma flush_loop_last_sent:
  "last_sent (fst (flush_loop env now st items)) k =
     (if k \<in> item_key ` set items then Some now else last_sent st k)"
  by (induction items arbitrary: st)
     (simp_all add: flush_loop_Cons_fst flush_one_fst del: flush_loop.simps(2))

lemma flush_loop_cooldowns:
  "cooldowns (fst (flush_loop env now st items)) = cooldowns st"
  by (induction items arbitrary: st)
     (simp_all add: flush_loop_Cons_fst flush_one_fst del: flush_loop.simps(2))

lemma flush_loop_distinct:
  "distinct (map fst (pending_events st)) \<Longrightarrow>
   distinct (map fst (pending_events (fst (flush_loop env now st items))))"
  by (induction items arbitrary: st)
     (simp_all add: flush_loop_Cons_fst flush_one_fst AList.distinct_delete del: flush_loop.simps(2))

lemma flush_loop_state_any_outcome:
  "fst (flush_loop env' now st items) = fst (flush_loop env now st items)"
  by (induction items arbitrary: st)
     (simp_all add: flush_loop_Cons_fst flush_one_fst del: flush_loop.simps(2))

lemma flush_select_for_key:
  assumes "distinct (map fst (pending_events st))"
  shows "filter (\<lambda>item. item_key item = (c, w)) (flush_select st now) =
     (if flushable st now (c, w) then [(c, w, get_pending_events st c w)] else [])"
proof -
  have "filter (\<lambda>item. item_key item = (c, w)) (flush_select st now) =
        map (\<lambda>((channel, wallet_key), events). (channel, wallet_key, events))
          (filter (\<lambda>(k', v). k' = (c, w) \<and>
              (now - last_time_of st k' > cooldown_of st (fst k') \<and> v \<noteq> []))
            (pending_events st))"
    unfolding flush_select_def filter_map filter_filter
    by (rule arg_cong [where f = "map _"], rule filter_cong)
       (auto simp: item_key_def split: prod.splits)
  then show ?thesis
    using alist_filter_key [OF assms, of "(c, w)"
        "\<lambda>k' v. now - last_time_of st k' > cooldown_of st (fst k') \<and> v \<noteq> []"]
    by (auto simp: flushable_def get_pending_events_def get_key_def split: option.splits)
qed

lemma flush_select_keys:
  assumes "distinct (map fst (pending_events st))"
  shows "k \<in> item_key ` set (flush_select st now) \<longleftrightarrow> flushable st now k"
proof -
  obtain c w where k: "k = (c, w)" by (cases k)
  have "k \<in> item_key ` set (flush_select st now) \<longleftrightarrow>
        filter (\<lambda>item. item_key item = (c, w)) (flush_select st now) \<noteq> []"
    by (force simp: k filter_empty_conv image_iff)
  then show ?thesis
    by (simp add: flush_select_for_key [OF assms] k)
qed

lemma process_allowed:
  assumes "now - last_time_of st (channel, get_wallet_key e) > cooldown_of st channel"
  shows "process_event_notification env st now channel e =
     ((if get_pending_events st channel (get_wallet_key e) \<noteq> []
       then clear_pending_events (st\<lparr>last_sent := (last_sent st)((channel, get_wallet_key e) \<mapsto> now)\<rparr>)
              channel (get_wallet_key e)
       else st\<lparr>last_sent := (last_sent st)((channel, get_wallet_key e) \<mapsto> now)\<rparr>),
      [attempt env now channel (get_wallet_key e)
         (get_pending_events st channel (get_wallet_key e) @ [e])])"
  using assms
  by (simp add: process_event_notification_def can_send_notification_def get_key_def Let_def
      get_pending_events_def)

lemma process_denied:
  assumes "\<not> now - last_time_of st (channel, get_wallet_key e) > cooldown_of st channel"
  shows "process_event_notification env st now channel e =
     (add_pending_event st channel (get_wallet_key e) e, [])"
  using assms
  by (simp add: process_event_notification_def can_send_notification_def get_key_def Let_def)

lemma get_pending_clear:
  "get_pending_events (clear_pending_events st channel wk) channel wk = []"
  by (simp add: get_pending_events_def clear_pending_events_def AList.delete_conv')

lemma get_pending_add:
  "get_pending_events (add_pending_event st channel wk e) channel wk =
     get_pending_events st channel wk @ [e]"
  by (simp add: get_pending_events_def add_pending_event_def AList.update_conv' Let_def)

lemmas limiter_eval =
  run_def initial_system_def notification_rate_limiter_def NotificationRateLimiter_def
  CHANNEL_COOLDOWNS_def CHANNEL_HANDLERS_def process_event_notification_def
  can_send_notification_def get_key_def last_time_of_def cooldown_of_def get_wallet_key_def
  get_pending_events_def add_pending_event_def clear_pending_events_def flush_select_def
  flush_iteration_def flush_one_def attempt_def send_notification_def delivered_def
  flush_pending_notifications_def Let_def


text \<open>
  C1, as the code has it. One call of \<^verbatim>\<open>process_event_notification\<close>, and one flush
  that runs to its end with nothing in between, treat a key (channel, walletKey) so:
  when the cooldown has elapsed, the single send attempted for the key carries every
  alert queued for it (then the triggering alert, if there is one), the key's queue is
  empty afterwards and its last-send time is the call's clock reading; when it has not
  elapsed, nothing is sent and the alert is appended to the queue (a flush leaves the
  key untouched). The limiter left by the call and the alerts handed to each send are
  the same however the sends end: the handler may deliver, report a failure or raise,
  and in no case is an alert taken from the queue put back or sent again by the call.
\<close>

theorem C1_queue_cleared_with_cooldown_reset:
  assumes "distinct (map fst (pending_events st))"
  shows
   "(case process_event_notification env st now channel e of (st', out) \<Rightarrow>
      if now - last_time_of st (channel, get_wallet_key e) > cooldown_of st channel
      then out = [attempt env now channel (get_wallet_key e)
                    (get_pending_events st channel (get_wallet_key e) @ [e])]
           \<and> get_pending_events st' channel (get_wallet_key e) = []
           \<and> last_sent st' (channel, get_wallet_key e) = Some now
      else out = []
           \<and> get_pending_events st' channel (get_wallet_key e) =
               get_pending_events st channel (get_wallet_key e) @ [e]
           \<and> last_sent st' = last_sent st)
    \<and> (case flush_pending_notifications env st now of (st', out) \<Rightarrow>
      if flushable st now (c, w)
      then filter (\<lambda>a. (at_channel a, at_wallet_key a) = (c, w)) out =
             [attempt env now c w (get_pending_events st c w)]
           \<and> get_pending_events st' c w = []
           \<and> last_sent st' (c, w) = Some now
      else filter (\<lambda>a. (at_channel a, at_wallet_key a) = (c, w)) out = []
           \<and> get_pending_events st' c w = get_pending_events st c w
           \<and> last_sent st' (c, w) = last_sent st (c, w))
    \<and> fst (process_event_notification env' st now channel e) =
        fst (process_event_notification env st now channel e)
    \<and> map at_events (snd (process_event_notification env' st now channel e)) =
        map at_events (snd (process_event_notification env st now channel e))
    \<and> fst (flush_pending_notifications env' st now) = fst (flush_pending_notifications env st now)
    \<and> map at_events (snd (flush_pending_notifications env' st now)) =
        map at_events (snd (flush_pending_notifications env st now))"
proof -
  have p: "(case process_event_notification env st now channel e of (st', out) \<Rightarrow>
      if now - last_time_of st (channel, get_wallet_key e) > cooldown_of st channel
      then out = [attempt env now channel (get_wallet_key e)
                    (get_pending_events st channel (get_wallet_key e) @ [e])]
           \<and> get_pending_events st' channel (get_wallet_key e) = []
           \<and> last_sent st' (channel, get_wallet_key e) = Some now
      else out = []
           \<and> get_pending_events st' channel (get_wallet_key e) =
               get_pending_events st channel (get_wallet_key e) @ [e]
           \<and> last_sent st' = last_sent st)"
  proof (cases "now - last_time_of st (channel, get_wallet_key e) > cooldown_of st channel")
    case True
    show ?thesis
      using True
      by (simp add: process_allowed get_pending_clear)
         (simp add: clear_pending_events_def get_pending_events_def)
  next
    case False
    show ?thesis
      using False by (simp add: process_denied get_pending_add) (simp add: add_pending_event_def Let_def)
  qed
  let ?sel = "flush_select st now"
  let ?r = "flush_loop env now st ?sel"
  have out: "filter (\<lambda>a. (at_channel a, at_wallet_key a) = (c, w)) (snd ?r) =
      map (\<lambda>(channel, wallet_key, events). attempt env now channel wallet_key events)
        (filter (\<lambda>item. item_key item = (c, w)) ?sel)"
    unfolding flush_loop_sends filter_map
    by (rule arg_cong [where f = "map _"], rule filter_cong)
       (auto simp: item_key_def attempt_def split: prod.splits)
  have f: "(case flush_pending_notifications env st now of (st', out) \<Rightarrow>
      if flushable st now (c, w)
      then filter (\<lambda>a. (at_channel a, at_wallet_key a) = (c, w)) out =
             [attempt env now c w (get_pending_events st c w)]
           \<and> get_pending_events st' c w = []
           \<and> last_sent st' (c, w) = Some now
      else filter (\<lambda>a. (at_channel a, at_wallet_key a) = (c, w)) out = []
           \<and> get_pending_events st' c w = get_pending_events st c w
           \<and> last_sent st' (c, w) = last_sent st (c, w))"
    unfolding flush_pending_notifications_def split_beta
    using out
    by (simp add: flush_select_for_key [OF assms] flush_loop_last_sent
        flush_select_keys [OF assms] get_pending_events_def [of "fst ?r"] flush_loop_pending get_key_def)
       (simp add: get_pending_events_def get_key_def)
  have i1: "fst (process_event_notification env' st now channel e) =
        fst (process_event_notification env st now channel e)"
    and i2: "map at_events (snd (process_event_notification env' st now channel e)) =
        map at_events (snd (process_event_notification env st now channel e))"
    by (cases "now - last_time_of st (channel, get_wallet_key e) > cooldown_of st channel";
        simp add: process_allowed process_denied attempt_def)+
  have i3: "fst (flush_pending_notifications env' st now) = fst (flush_pending_notifications env st now)"
    unfolding flush_pending_notifications_def by (rule flush_loop_state_any_outcome)
  have i4: "map at_events (snd (flush_pending_notifications env' st now)) =
        map at_events (snd (flush_pending_notifications env st now))"
    unfolding flush_pending_notifications_def flush_loop_sends
    by (simp add: attempt_def case_prod_unfold)
  from p f i1 i2 i3 i4 show ?thesis by blast
qed

theorem C1_queue_cleared_with_cooldown_reset_witness:
  "distinct (map fst (pending_events queued_limiter))
   \<and> snd (process_event_notification (\<lambda>channel events. Returns True) queued_limiter 1046 ''telegram'' fill_sol) =
       [\<lparr>at_time = 1046, at_channel = ''telegram'', at_wallet_key = ''0xABC123...'',
         at_events = [fill_eth, fill_sol], at_result = Completed True\<rparr>]
   \<and> get_pending_events
        (fst (process_event_notification (\<lambda>channel events. Returns True) queued_limiter 1046 ''telegram'' fill_sol))
        ''telegram'' ''0xABC123...'' = []
   \<and> snd (flush_pending_notifications (\<lambda>channel events. Returns True) queued_limiter 1046) =
       [\<lparr>at_time = 1046, at_channel = ''telegram'', at_wallet_key = ''0xABC123...'',
         at_events = [fill_eth], at_result = Completed True\<rparr>]
   \<and> get_pending_events (fst (flush_pending_notifications (\<lambda>channel events. Returns True) queued_limiter 1046))
        ''telegram'' ''0xABC123...'' = []
   \<and> fst (process_event_notification (\<lambda>channel events. Raises) queued_limiter 1046 ''telegram'' fill_sol) =
       fst (process_event_notification (\<lambda>channel events. Returns True) queued_limiter 1046 ''telegram'' fill_sol)
   \<and> map at_result (snd (process_event_notification (\<lambda>channel events. Raises) queued_limiter 1046
         ''telegram'' fill_sol)) = [Failed]"
  using C1_queue_cleared_with_cooldown_reset [where st = queued_limiter and env = "\<lambda>channel events. Returns True" and now = 1046
      and channel = "''telegram''" and e = fill_sol and c = "''telegram''" and w = "''0xABC123...''"
      and env' = "\<lambda>channel events. Raises"]
  by (simp add: limiter_eval queued_limiter_def fill_sol_def fill_eth_def flushable_def)


text \<open>
  C1 as stated fails: with a telegram send that raises for a combined message, the
  alert queued at 1010 is taken from the queue at 1046, the send raises, the queue is
  empty and no handler call that returned ever held the alert: it was delivered zero
  times, not once.
\<close>

theorem C1_failed_send_loses_alert:
  "pending_events (lim (run (\<lambda>channel events. if length events < 2 then Returns True else Raises) initial_system
       [Dispatch 1000 ''telegram'' fill_btc, Dispatch 1010 ''telegram'' fill_eth,
        Dispatch 1046 ''telegram'' fill_sol])) = []
   \<and> map (\<lambda>a. (at_events a, at_result a))
       (sends (run (\<lambda>channel events. if length events < 2 then Returns True else Raises) initial_system
         [Dispatch 1000 ''telegram'' fill_btc, Dispatch 1010 ''telegram'' fill_eth,
          Dispatch 1046 ''telegram'' fill_sol])) =
       [([fill_btc], Completed True), ([fill_eth, fill_sol], Failed)]
   \<and> count_list (delivered (sends (run (\<lambda>channel events. if length events < 2 then Returns True else Raises) initial_system
       [Dispatch 1000 ''telegram'' fill_btc, Dispatch 1010 ''telegram'' fill_eth,
        Dispatch 1046 ''telegram'' fill_sol]))) fill_eth \<noteq> 1"
  by (simp add: limiter_eval fill_btc_def fill_eth_def fill_sol_def)


text \<open>
  C2 on the code. Two keys (telegram and discord, same wallet) hold a queued alert and
  are both selected by the flush at 1046. The flush sends for telegram and awaits; an
  alert dispatched meanwhile passes the discord check (1046.5 - 1000 > 45) and is sent
  with the queued alert; the flush resumes with its stale item and sends the queued
  alert to discord again at 1047, half a second after the previous discord send, and
  writes its stale clock reading 1046 over the newer last-send time 1046.5.
\<close>

theorem C2_flush_interleaving:
  "map (\<lambda>a. (at_time a, at_channel a, at_wallet_key a, at_events a, at_result a))
     (sends (run (\<lambda>channel events. Returns True) initial_system interleaved_schedule)) =
     [(1000, ''telegram'', ''0xABC123...'', [fill_btc], Completed True),
      (1000, ''discord'', ''0xABC123...'', [fill_btc], Completed True),
      (1046, ''telegram'', ''0xABC123...'', [fill_eth], Completed True),
      (1046 + 1/2, ''discord'', ''0xABC123...'', [fill_eth, fill_sol], Completed True),
      (1047, ''discord'', ''0xABC123...'', [fill_eth], Completed True)]
   \<and> last_sent (lim (run (\<lambda>channel events. Returns True) initial_system interleaved_schedule))
        (''discord'', ''0xABC123...'') = Some 1046
   \<and> cooldown_of notification_rate_limiter ''discord'' = 45"
  by (simp add: limiter_eval interleaved_schedule_def fill_btc_def fill_eth_def fill_sol_def)


text \<open>
  One call on its own: when \<^verbatim>\<open>can_send_notification\<close> returns true for (channel, walletKey), the
  limiter it leaves has that key's last-send time equal to the current time. A
  \<^verbatim>\<open>process_event_notification\<close> for that key leaves the same timestamp whatever the
  outcome of the send (also when the handler raises), and every later check for the
  key no more than the cooldown after it is negative.
\<close>

lemma positive_check_starts_cooldown:
  assumes "snd (can_send_notification st now channel wallet_key)"
  shows "last_sent (fst (can_send_notification st now channel wallet_key)) (channel, wallet_key) = Some now
    \<and> (get_wallet_key e = wallet_key \<longrightarrow>
         last_sent (fst (process_event_notification env st now channel e)) (channel, wallet_key) = Some now
       \<and> (\<forall>t. t - now \<le> cooldown_of st channel \<longrightarrow>
            \<not> snd (can_send_notification (fst (process_event_notification env st now channel e))
                     t channel wallet_key)))"
proof -
  from assms have gt: "now - last_time_of st (channel, wallet_key) > cooldown_of st channel"
    by (simp add: can_send_notification_def Let_def get_key_def split: if_splits)
  then have a: "last_sent (fst (can_send_notification st now channel wallet_key)) (channel, wallet_key) = Some now"
    by (simp add: can_send_notification_def Let_def get_key_def)
  have b: "last_sent (fst (process_event_notification env st now channel e)) (channel, wallet_key) = Some now"
    and c: "cooldowns (fst (process_event_notification env st now channel e)) = cooldowns st"
    if "get_wallet_key e = wallet_key"
    using gt that by (simp_all add: process_allowed clear_pending_events_def)
  show ?thesis
    using a b c
    by (auto simp: can_send_notification_def Let_def get_key_def last_time_of_def cooldown_of_def)
qed


lemma positive_check_starts_cooldown_example:
  "snd (can_send_notification notification_rate_limiter 1000 ''telegram'' ''0xABC123...'')
   \<and> last_sent (fst (can_send_notification notification_rate_limiter 1000 ''telegram'' ''0xABC123...''))
        (''telegram'', ''0xABC123...'') = Some 1000
   \<and> at_result (hd (snd (process_event_notification (\<lambda>channel events. Raises)
        notification_rate_limiter 1000 ''telegram'' fill_btc))) = Failed
   \<and> last_sent (fst (process_event_notification (\<lambda>channel events. Raises)
        notification_rate_limiter 1000 ''telegram'' fill_btc)) (''telegram'', ''0xABC123...'') = Some 1000
   \<and> \<not> snd (can_send_notification
        (fst (process_event_notification (\<lambda>channel events. Raises)
           notification_rate_limiter 1000 ''telegram'' fill_btc)) 1045 ''telegram'' ''0xABC123...'')"
  using positive_check_starts_cooldown [where st = notification_rate_limiter and now = 1000 and channel = "''telegram''"
      and wallet_key = "''0xABC123...''" and e = fill_btc and env = "\<lambda>channel events. Raises"]
  by (simp add: limiter_eval fill_btc_def)

text \<open>
  C10 on the code. The key (discord, 0xABC123...) was last sent at 1000 and holds a
  queued alert when the flush starts at 1046 and selects it; the flush sends for
  telegram first and awaits. At 1046.5 the check for the discord key is positive and
  writes 1046.5 as the key's last-send time. The flush resumes and assigns its own clock
  reading, taken before the await, to the key: the timestamp goes back from 1046.5 to
  1046. A check at 1091.25, which is 44.75 s after the positive check (the discord
  cooldown is 45 s), is positive again: the positive check at 1046.5 did not consume
  the key's full cooldown.
\<close>

theorem C10_flush_rolls_timestamp_back:
  "snd (can_send_notification
          (lim (run (\<lambda>channel events. Returns True) initial_system (take 5 interleaved_schedule)))
          (1046 + 1/2) ''discord'' ''0xABC123...'')
   \<and> last_sent (lim (run (\<lambda>channel events. Returns True) initial_system (take 6 interleaved_schedule)))
        (''discord'', ''0xABC123...'') = Some (1046 + 1/2)
   \<and> last_sent (lim (run (\<lambda>channel events. Returns True) initial_system interleaved_schedule))
        (''discord'', ''0xABC123...'') = Some 1046
   \<and> snd (can_send_notification
          (lim (run (\<lambda>channel events. Returns True) initial_system interleaved_schedule))
          (1091 + 1/4) ''discord'' ''0xABC123...'')
   \<and> (1091 + 1/4) - (1046 + 1/2) < cooldown_of notification_rate_limiter ''discord''"
  by (simp add: limiter_eval interleaved_schedule_def fill_btc_def fill_eth_def fill_sol_def)

subsection \<open>The deduplicator\<close>

lemma time_bucket_interval:
  assumes "300 * of_int k \<le> t" "t < 300 * (of_int k + 1)"
  shows "time_bucket t = k"
proof -
  have "of_int k \<le> t / 300" "t / 300 < of_int k + 1"
    using assms by (simp_all add: field_simps)
  then show ?thesis
    unfolding time_bucket_def by (simp add: floor_unique)
qed

lemma value_range_cong:
  assumes "\<forall>b \<in> {10, 100, 1000, 10000, 100000}. (v1 < b) = (v2 < b)"
  shows "value_range v1 = value_range v2"
  using assms by (simp add: value_range_def)

text \<open>
  C6. The signature is a function of five inputs only: two events with the same first
  12 characters of the wallet, the same coin and the same type, whose dollar values lie
  on the same side of each of the boundaries 10, 100, 1000, 10000 and 100000, evaluated
  at two clock readings of the same 5-minute interval [300k, 300(k+1)), get the same
  signature, whatever else the events hold.
\<close>

theorem C6_signature_deterministic:
  assumes "take 12 (wallet_of e1) = take 12 (wallet_of e2)"
    and "coin_of e1 = coin_of e2"
    and "type_of e1 = type_of e2"
    and "\<forall>b \<in> {10, 100, 1000, 10000, 100000}. (usd_value_of e1 < b) = (usd_value_of e2 < b)"
    and "300 * of_int k \<le> t1" and "t1 < 300 * (of_int k + 1)"
    and "300 * of_int k \<le> t2" and "t2 < 300 * (of_int k + 1)"
  shows "generate_signature md5_hex t1 e1 = generate_signature md5_hex t2 e2"
proof -
  have "time_bucket t1 = time_bucket t2"
    using assms(5-8) by (simp add: time_bucket_interval)
  moreover have "value_range (usd_value_of e1) = value_range (usd_value_of e2)"
    using assms(4) by (rule value_range_cong)
  ultimately show ?thesis
    using assms(1-3) by (simp add: generate_signature_def Let_def)
qed

theorem C6_signature_deterministic_witness:
  "generate_signature rev 1000 (doge_fill 5) =
   generate_signature rev 1100 ((doge_fill 7)\<lparr>ev_user := Some ''someone''\<rparr>)"
  using C6_signature_deterministic [where ?e1.0 = "doge_fill 5"
      and ?e2.0 = "(doge_fill 7)\<lparr>ev_user := Some ''someone''\<rparr>" and k = 3 and ?t1.0 = 1000
      and ?t2.0 = 1100 and md5_hex = rev]
  by (simp add: doge_fill_def wallet_of_def coin_of_def type_of_def usd_value_of_def)

lemma keys_cleaned:
  "fst ` set (filter (\<lambda>(s, tss). tss \<noteq> []) (map (\<lambda>(s, tss). (s, filter P tss)) xs)) \<subseteq> fst ` set xs"
  by (induction xs) auto

lemma distinct_cleaned:
  "distinct (map fst xs) \<Longrightarrow>
   distinct (map fst (filter (\<lambda>(s, tss). tss \<noteq> []) (map (\<lambda>(s, tss). (s, filter P tss)) xs)))"
proof (induction xs)
  case Nil
  then show ?case by simp
next
  case (Cons x xs)
  obtain k' v' where x: "x = (k', v')" by (cases x)
  from Cons.prems x have "k' \<notin> fst ` set xs" by auto
  with keys_cleaned [of P xs] have "k' \<notin> fst ` set (filter (\<lambda>(s, tss). tss \<noteq> []) (map (\<lambda>(s, tss). (s, filter P tss)) xs))"
    by blast
  with Cons x show ?case by auto
qed

lemma keys_filter_keys:
  assumes "A \<subseteq> fst ` set xs"
  shows "fst ` set (filter (\<lambda>(s, evs). s \<in> A) xs) = A"
proof
  show "fst ` set (filter (\<lambda>(s, evs). s \<in> A) xs) \<subseteq> A" by auto
  show "A \<subseteq> fst ` set (filter (\<lambda>(s, evs). s \<in> A) xs)"
  proof
    fix k assume k: "k \<in> A"
    with assms obtain v where "(k, v) \<in> set xs" by auto
    with k have "(k, v) \<in> set (filter (\<lambda>(s, evs). s \<in> A) xs)" by simp
    then show "k \<in> fst ` set (filter (\<lambda>(s, evs). s \<in> A) xs)" by (rule rev_image_eqI) simp
  qed
qed

lemma cleanup_runs:
  "\<not> now - last_cleanup st < 120 \<Longrightarrow>
   cleanup_old_entries st now =
     st\<lparr>event_signatures := cleaned_signatures st now,
        suppressed_events := filter (\<lambda>(s, evs). s \<in> fst ` set (cleaned_signatures st now))
                               (suppressed_events st),
        last_cleanup := now\<rparr>"
  unfolding cleanup_old_entries_def Let_def by simp

lemma cleanup_skips:
  "now - last_cleanup st < 120 \<Longrightarrow> cleanup_old_entries st now = st"
  unfolding cleanup_old_entries_def by simp

lemma cleanup_wf:
  assumes "dedup_wf st"
  shows "dedup_wf (cleanup_old_entries st now)"
proof (cases "now - last_cleanup st < 120")
  case True
  with assms show ?thesis by (simp only: cleanup_skips)
next
  case False
  have d1: "distinct (map fst (cleaned_signatures st now))"
    unfolding cleaned_signatures_def
    using assms by (intro distinct_cleaned) (simp add: dedup_wf_def)
  have d2: "distinct (map fst (filter (\<lambda>(s, evs). s \<in> fst ` set (cleaned_signatures st now))
                               (suppressed_events st)))"
    using assms by (intro distinct_map_filter) (simp add: dedup_wf_def)
  have "fst ` set (cleaned_signatures st now) \<subseteq> fst ` set (event_signatures st)"
    unfolding cleaned_signatures_def by (rule keys_cleaned)
  also have "\<dots> = fst ` set (suppressed_events st)"
    using assms by (simp add: dedup_wf_def)
  finally have sub: "fst ` set (cleaned_signatures st now) \<subseteq> fst ` set (suppressed_events st)" .
  have k: "fst ` set (filter (\<lambda>(s, evs). s \<in> fst ` set (cleaned_signatures st now))
                               (suppressed_events st)) = fst ` set (cleaned_signatures st now)"
    by (rule keys_filter_keys [OF sub])
  show ?thesis
    unfolding cleanup_runs [OF False] dedup_wf_def
    using d1 d2 k by (simp del: set_filter)
qed

lemma map_of_cleaned:
  "distinct (map fst xs) \<Longrightarrow>
   map_of (filter (\<lambda>(s, tss). tss \<noteq> []) (map (\<lambda>(s, tss). (s, filter P tss)) xs)) k =
     (case map_of xs k of None \<Rightarrow> None
      | Some tss \<Rightarrow> if filter P tss = [] then None else Some (filter P tss))"
proof (induction xs)
  case Nil
  then show ?case by simp
next
  case (Cons x xs)
  obtain k' v' where x: "x = (k', v')" by (cases x)
  from Cons.prems x have notin: "k' \<notin> fst ` set xs" by auto
  then have none: "map_of xs k' = None" by (simp add: map_of_eq_None_iff)
  show ?case
    using Cons x none by (auto split: option.splits)
qed

lemma update_keys_set: "fst ` set (AList.update k v al) = insert k (fst ` set al)"
proof -
  have "set (map fst (AList.update k v al)) = insert k (set (map fst al))"
    unfolding AList.update_keys by auto
  then show ?thesis by simp
qed


lemma cleanup_timestamps:
  assumes "dedup_wf st"
  shows "timestamps_of (cleanup_old_entries st now) s =
     (if now - last_cleanup st < 120 then timestamps_of st s
      else filter (\<lambda>ts. ts > now - window_seconds st) (timestamps_of st s))"
proof (cases "now - last_cleanup st < 120")
  case True
  then show ?thesis by (simp only: cleanup_skips if_True)
next
  case False
  have d: "distinct (map fst (event_signatures st))"
    using assms by (simp add: dedup_wf_def)
  have "map_of (cleaned_signatures st now) s =
     (case map_of (event_signatures st) s of None \<Rightarrow> None
      | Some tss \<Rightarrow> if filter (\<lambda>ts. ts > now - window_seconds st) tss = [] then None
                    else Some (filter (\<lambda>ts. ts > now - window_seconds st) tss))"
    unfolding cleaned_signatures_def by (rule map_of_cleaned [OF d])
  then have "timestamps_of (cleanup_old_entries st now) s =
      filter (\<lambda>ts. ts > now - window_seconds st) (timestamps_of st s)"
    unfolding cleanup_runs [OF False] timestamps_of_def
    by (simp split: option.splits)
  with False show ?thesis by simp
qed

lemma cleanup_params:
  "window_seconds (cleanup_old_entries st now) = window_seconds st"
  "max_similar_events (cleanup_old_entries st now) = max_similar_events st"
  "last_summary_time (cleanup_old_entries st now) = last_summary_time st"
  "summary_interval (cleanup_old_entries st now) = summary_interval st"
  by (simp_all add: cleanup_old_entries_def Let_def)

lemma map_of_absent: "k \<notin> fst ` set xs \<Longrightarrow> map_of xs k = None"
  by (simp add: map_of_eq_None_iff)

lemma with_signature_wf:
  assumes "dedup_wf st1"
  shows "dedup_wf (with_signature st1 sg)"
    and "sg \<in> fst ` set (suppressed_events (with_signature st1 sg))"
    and "timestamps_of (with_signature st1 sg) s = timestamps_of st1 s"
    and "suppressed_of (with_signature st1 sg) s = suppressed_of st1 s"
proof -
  have keys: "fst ` set (event_signatures st1) = fst ` set (suppressed_events st1)"
    and d1: "distinct (map fst (event_signatures st1))"
    and d2: "distinct (map fst (suppressed_events st1))"
    using assms by (simp_all add: dedup_wf_def)
  show "dedup_wf (with_signature st1 sg)"
  proof (cases "sg \<in> fst ` set (event_signatures st1)")
    case True
    with assms show ?thesis by (simp add: with_signature_def)
  next
    case False
    then show ?thesis
      using d1 d2 keys
      by (simp add: with_signature_def dedup_wf_def AList.distinct_update update_keys_set)
  qed
  show "sg \<in> fst ` set (suppressed_events (with_signature st1 sg))"
  proof (cases "sg \<in> fst ` set (event_signatures st1)")
    case True
    with keys show ?thesis by (simp add: with_signature_def)
  next
    case False
    then show ?thesis by (simp add: with_signature_def update_keys_set)
  qed
  show "timestamps_of (with_signature st1 sg) s = timestamps_of st1 s"
  proof (cases "sg \<in> fst ` set (event_signatures st1)")
    case True
    then show ?thesis by (simp add: with_signature_def)
  next
    case False
    then show ?thesis
      by (simp add: with_signature_def timestamps_of_def AList.update_conv' map_of_absent)
  qed
  show "suppressed_of (with_signature st1 sg) s = suppressed_of st1 s"
  proof (cases "sg \<in> fst ` set (event_signatures st1)")
    case True
    then show ?thesis by (simp add: with_signature_def)
  next
    case False
    with keys have "sg \<notin> fst ` set (suppressed_events st1)" by simp
    with False show ?thesis
      by (simp add: with_signature_def suppressed_of_def AList.update_conv' map_of_absent)
  qed
qed


lemma record_admission_wf:
  assumes "dedup_wf st2" and "sg \<in> fst ` set (event_signatures st2)"
  shows "dedup_wf (record_admission st2 sg now)"
proof -
  have "fst ` set (AList.update sg (timestamps_of st2 sg @ [now]) (event_signatures st2)) =
        fst ` set (event_signatures st2)"
    using assms(2) by (simp add: update_keys_set insert_absorb)
  then show ?thesis
    using assms(1) by (simp add: record_admission_def dedup_wf_def AList.distinct_update)
qed

lemma record_admission_timestamps:
  "timestamps_of (record_admission st2 sg now) s =
     (if s = sg then timestamps_of st2 sg @ [now] else timestamps_of st2 s)"
  by (simp add: record_admission_def timestamps_of_def AList.update_conv')

lemma record_admission_other:
  "suppressed_of (record_admission st2 sg now) s = suppressed_of st2 s"
  "window_seconds (record_admission st2 sg now) = window_seconds st2"
  "max_similar_events (record_admission st2 sg now) = max_similar_events st2"
  by (simp_all add: record_admission_def suppressed_of_def)

lemma suppress_wf:
  assumes "dedup_wf st2" and "sg \<in> fst ` set (suppressed_events st2)"
  shows "dedup_wf (suppress st2 sg e)"
proof -
  have "fst ` set (AList.update sg (suppressed_of st2 sg @ [e]) (suppressed_events st2)) =
        fst ` set (suppressed_events st2)"
    using assms(2) by (simp add: update_keys_set insert_absorb)
  then show ?thesis
    using assms(1) by (simp add: suppress_def dedup_wf_def AList.distinct_update)
qed

lemma suppress_lists:
  "suppressed_of (suppress st2 sg e) s =
     (if s = sg then suppressed_of st2 sg @ [e] else suppressed_of st2 s)"
  "timestamps_of (suppress st2 sg e) s = timestamps_of st2 s"
  "window_seconds (suppress st2 sg e) = window_seconds st2"
  "max_similar_events (suppress st2 sg e) = max_similar_events st2"
  by (simp_all add: suppress_def suppressed_of_def timestamps_of_def AList.update_conv')

lemma should_allow_event_admit:
  assumes "usd_value_of e \<ge> 50000
         \<or> (usd_value_of e \<ge> 10000 \<and>
             recent_count (cleanup_old_entries st now) now (generate_signature md5_hex now e)
               < max_similar_events st * 2)
         \<or> recent_count (cleanup_old_entries st now) now (generate_signature md5_hex now e)
               < max_similar_events st"
    and "dedup_wf st"
  shows "\<exists>st'. should_allow_event md5_hex st now e = Some (st', True)
     \<and> dedup_wf st'
     \<and> (\<forall>s. timestamps_of st' s =
           (if s = generate_signature md5_hex now e
            then timestamps_of (cleanup_old_entries st now) s @ [now]
            else timestamps_of (cleanup_old_entries st now) s))
     \<and> (\<forall>s. suppressed_of st' s = suppressed_of (cleanup_old_entries st now) s)
     \<and> window_seconds st' = window_seconds st
     \<and> max_similar_events st' = max_similar_events st"
proof -
  define st1 where "st1 = cleanup_old_entries st now"
  define sg where "sg = generate_signature md5_hex now e"
  define st2 where "st2 = with_signature st1 sg"
  have wf1: "dedup_wf st1" unfolding st1_def by (rule cleanup_wf [OF assms(2)])
  note ws = with_signature_wf [OF wf1, of sg, folded st2_def]
  have insig: "sg \<in> fst ` set (event_signatures st2)"
    using ws(1,2) by (simp add: dedup_wf_def)
  have par: "window_seconds st2 = window_seconds st" "max_similar_events st2 = max_similar_events st"
    unfolding st2_def st1_def by (simp_all add: with_signature_def cleanup_params)
  have rc: "recent_count st2 now sg = recent_count st1 now sg"
    unfolding recent_count_def ws(3) par st1_def by (simp add: cleanup_params)
  let ?adm = "record_admission st2 sg now"
  let ?adm' = "?adm\<lparr>wallet_event_counts := (wallet_event_counts st2)
                 (wallet_of e \<mapsto> (case wallet_event_counts st2 (wallet_of e) of
                                  None \<Rightarrow> 0 | Some n \<Rightarrow> n) + 1)\<rparr>"
  have res: "should_allow_event md5_hex st now e = Some (?adm, True)
           \<or> should_allow_event md5_hex st now e = Some (?adm', True)"
    using assms(1) rc
    unfolding should_allow_event_def Let_def st1_def [symmetric] sg_def [symmetric]
      st2_def [symmetric] par
    by auto
  have wfa: "dedup_wf ?adm" by (rule record_admission_wf [OF ws(1) insig])
  then have wfa': "dedup_wf ?adm'" by (simp add: dedup_wf_def)
  have ts: "timestamps_of ?adm s = (if s = sg then timestamps_of st1 s @ [now] else timestamps_of st1 s)" for s
    by (simp add: record_admission_timestamps ws(3))
  then have ts': "timestamps_of ?adm' s = (if s = sg then timestamps_of st1 s @ [now] else timestamps_of st1 s)" for s
    by (simp add: timestamps_of_def)
  have su: "suppressed_of ?adm s = suppressed_of st1 s" for s
    by (simp add: record_admission_other ws(4))
  then have su': "suppressed_of ?adm' s = suppressed_of st1 s" for s
    by (simp add: suppressed_of_def)
  have p: "window_seconds ?adm = window_seconds st" "max_similar_events ?adm = max_similar_events st"
     "window_seconds ?adm' = window_seconds st" "max_similar_events ?adm' = max_similar_events st"
    by (simp_all add: record_admission_other par)
  from res show ?thesis
  proof
    assume "should_allow_event md5_hex st now e = Some (?adm, True)"
    with wfa ts su p show ?thesis unfolding st1_def sg_def by blast
  next
    assume "should_allow_event md5_hex st now e = Some (?adm', True)"
    with wfa' ts' su' p show ?thesis unfolding st1_def sg_def by blast
  qed
qed

lemma map_of_present:
  "k \<in> fst ` set xs \<Longrightarrow> \<exists>v. map_of xs k = Some v"
  by (cases "map_of xs k") (simp_all add: map_of_eq_None_iff)

lemma should_allow_event_suppress:
  assumes "\<not> (usd_value_of e \<ge> 50000
         \<or> (usd_value_of e \<ge> 10000 \<and>
             recent_count (cleanup_old_entries st now) now (generate_signature md5_hex now e)
               < max_similar_events st * 2)
         \<or> recent_count (cleanup_old_entries st now) now (generate_signature md5_hex now e)
               < max_similar_events st)"
    and "dedup_wf st"
  shows "\<exists>st'. should_allow_event md5_hex st now e = Some (st', False)
     \<and> dedup_wf st'
     \<and> (\<forall>s. timestamps_of st' s = timestamps_of (cleanup_old_entries st now) s)
     \<and> (\<forall>s. suppressed_of st' s =
           (if s = generate_signature md5_hex now e
            then suppressed_of (cleanup_old_entries st now) s @ [e]
            else suppressed_of (cleanup_old_entries st now) s))
     \<and> window_seconds st' = window_seconds st
     \<and> max_similar_events st' = max_similar_events st"
proof -
  define st1 where "st1 = cleanup_old_entries st now"
  define sg where "sg = generate_signature md5_hex now e"
  define st2 where "st2 = with_signature st1 sg"
  have wf1: "dedup_wf st1" unfolding st1_def by (rule cleanup_wf [OF assms(2)])
  note ws = with_signature_wf [OF wf1, of sg, folded st2_def]
  have par: "window_seconds st2 = window_seconds st" "max_similar_events st2 = max_similar_events st"
    unfolding st2_def st1_def by (simp_all add: with_signature_def cleanup_params)
  have rc: "recent_count st2 now sg = recent_count st1 now sg"
    unfolding recent_count_def ws(3) par st1_def by (simp add: cleanup_params)
  obtain evs where evs: "map_of (suppressed_events st2) sg = Some evs"
    using map_of_present [OF ws(2)] by blast
  then have evs': "evs = suppressed_of st2 sg" by (simp add: suppressed_of_def)
  have res: "should_allow_event md5_hex st now e = Some (suppress st2 sg e, False)"
    using assms(1) rc evs
    unfolding should_allow_event_def Let_def st1_def [symmetric] sg_def [symmetric]
      st2_def [symmetric] par suppress_def evs' [symmetric]
    by auto
  have wfs: "dedup_wf (suppress st2 sg e)" by (rule suppress_wf [OF ws(1) ws(2)])
  have ts: "timestamps_of (suppress st2 sg e) s = timestamps_of st1 s" for s
    by (simp add: suppress_lists ws(3))
  have su: "suppressed_of (suppress st2 sg e) s =
      (if s = sg then suppressed_of st1 s @ [e] else suppressed_of st1 s)" for s
    by (simp add: suppress_lists ws(4))
  have p: "window_seconds (suppress st2 sg e) = window_seconds st"
    "max_similar_events (suppress st2 sg e) = max_similar_events st"
    by (simp_all add: suppress_lists par)
  from res wfs ts su p show ?thesis unfolding st1_def sg_def by blast
qed


lemma doge_fill_reads:
  "usd_value_of (doge_fill v) = v"
  "wallet_of (doge_fill v) = ''0xDEF4567890abcdef''"
  "coin_of (doge_fill v) = ''DOGE''"
  "type_of (doge_fill v) = ''user_fill''"
  by (simp_all add: usd_value_of_def wallet_of_def coin_of_def type_of_def doge_fill_def)

lemma scenario_b_signature_eq:
  assumes "900 \<le> t" and "t < 1200"
  shows "generate_signature md5_hex t (doge_fill 5) = scenario_b_signature md5_hex"
proof -
  have "time_bucket t = 3" "time_bucket 1001 = 3"
    using assms by (simp_all add: time_bucket_interval [where k = 3])
  then show ?thesis
    by (simp add: scenario_b_signature_def generate_signature_def)
qed

lemma scenario_b_run:
  "\<exists>st5. run_events md5_hex (event_deduplicator 1000) scenario_b =
       Some (st5, [True, True, False, False, False])
     \<and> map suppressed_count (snd (get_all_suppressed_summaries st5 1300)) = [3]"
  by (simp add: scenario_b_def scenario_b_signature_eq doge_fill_reads
      should_allow_event_def cleanup_old_entries_def with_signature_def
      record_admission_def recent_count_def timestamps_of_def suppressed_of_def
      event_deduplicator_def EventDeduplicator_def Let_def get_all_suppressed_summaries_def
      get_suppressed_summary_def summarize_def)


lemma standard_admissions_Cons:
  "standard_admissions md5_hex ((t, e) # tes) (b # bs) sg =
     (if b \<and> usd_value_of e < 10000 \<and> generate_signature md5_hex t e = sg then [t] else [])
       @ standard_admissions md5_hex tes bs sg"
  by (simp add: standard_admissions_def)

lemma filter_after_cutoff:
  "d \<le> c \<Longrightarrow> filter (\<lambda>t. c < t) (filter (\<lambda>t. d < t) xs) = filter (\<lambda>t. (c::real) < t) xs"
  by (induction xs) auto

lemma length_filter_mono:
  "(\<And>x. P x \<Longrightarrow> Q x) \<Longrightarrow> length (filter P xs) \<le> length (filter Q xs)"
  by (induction xs) auto

lemma should_allow_event_effect:
  assumes "dedup_wf st"
  shows "\<exists>st' b. should_allow_event md5_hex st now e = Some (st', b)
     \<and> dedup_wf st'
     \<and> (\<forall>s. timestamps_of st' s =
           (if s = generate_signature md5_hex now e \<and> b
            then timestamps_of (cleanup_old_entries st now) s @ [now]
            else timestamps_of (cleanup_old_entries st now) s))
     \<and> window_seconds st' = window_seconds st
     \<and> max_similar_events st' = max_similar_events st
     \<and> (b \<and> usd_value_of e < 10000 \<longrightarrow>
          recent_count (cleanup_old_entries st now) now (generate_signature md5_hex now e)
            < max_similar_events st)"
proof (cases "usd_value_of e \<ge> 50000
         \<or> (usd_value_of e \<ge> 10000 \<and>
             recent_count (cleanup_old_entries st now) now (generate_signature md5_hex now e)
               < max_similar_events st * 2)
         \<or> recent_count (cleanup_old_entries st now) now (generate_signature md5_hex now e)
               < max_similar_events st")
  case True
  from should_allow_event_admit [OF True assms]
  obtain st' where st': "should_allow_event md5_hex st now e = Some (st', True)" "dedup_wf st'"
    "\<forall>s. timestamps_of st' s =
           (if s = generate_signature md5_hex now e
            then timestamps_of (cleanup_old_entries st now) s @ [now]
            else timestamps_of (cleanup_old_entries st now) s)"
    "window_seconds st' = window_seconds st" "max_similar_events st' = max_similar_events st"
    by blast
  have "usd_value_of e < 10000 \<longrightarrow>
          recent_count (cleanup_old_entries st now) now (generate_signature md5_hex now e)
            < max_similar_events st"
    using True by auto
  with st' show ?thesis
    by (intro exI [of _ st'] exI [of _ True]) simp
next
  case False
  from should_allow_event_suppress [OF False assms]
  obtain st' where st': "should_allow_event md5_hex st now e = Some (st', False)" "dedup_wf st'"
    "\<forall>s. timestamps_of st' s = timestamps_of (cleanup_old_entries st now) s"
    "window_seconds st' = window_seconds st" "max_similar_events st' = max_similar_events st"
    by blast
  then show ?thesis
    by (intro exI [of _ st'] exI [of _ False]) simp
qed

lemma cleanup_recent:
  assumes "dedup_wf st" and "now - window_seconds st \<le> c"
  shows "filter (\<lambda>t. c < t) (timestamps_of (cleanup_old_entries st now) s) =
         filter (\<lambda>t. c < t) (timestamps_of st s)"
proof (cases "now - last_cleanup st < 120")
  case True
  then show ?thesis by (simp only: cleanup_skips)
next
  case False
  then have "timestamps_of (cleanup_old_entries st now) s =
      filter (\<lambda>t. now - window_seconds st < t) (timestamps_of st s)"
    by (simp add: cleanup_timestamps [OF assms(1)])
  then show ?thesis
    by (simp only: filter_after_cutoff [OF assms(2)])
qed










lemmas dedup_eval =
  doge_fill_reads should_allow_event_def cleanup_old_entries_def cleaned_signatures_def
  with_signature_def
  record_admission_def recent_count_def timestamps_of_def suppressed_of_def
  event_deduplicator_def EventDeduplicator_def Let_def






lemma run_events_window_cap:
  assumes "dedup_wf st"
    and "sorted (map fst tes)"
    and "\<forall>te \<in> set tes. T \<le> fst te"
    and "\<forall>sg c. T - window_seconds st \<le> c \<longrightarrow>
           length (filter (\<lambda>t. c < t) (std0 sg)) \<le> length (filter (\<lambda>t. c < t) (timestamps_of st sg))"
    and "\<forall>sg a. int (length (filter (\<lambda>t. a < t \<and> t \<le> a + window_seconds st) (std0 sg)))
           \<le> max_similar_events st"
  shows "\<exists>st' bs. run_events md5_hex st tes = Some (st', bs) \<and> length bs = length tes
     \<and> (\<forall>sg a. int (length (filter (\<lambda>t. a < t \<and> t \<le> a + window_seconds st)
                           (std0 sg @ standard_admissions md5_hex tes bs sg)))
           \<le> max_similar_events st)"
  using assms
proof (induction tes arbitrary: st T std0)
  case Nil
  then show ?case by (simp add: standard_admissions_def)
next
  case (Cons te tes)
  obtain now e where te: "te = (now, e)" by (cases te)
  define W where "W = window_seconds st"
  define L where "L = max_similar_events st"
  define sg0 where "sg0 = generate_signature md5_hex now e"
  define st1 where "st1 = cleanup_old_entries st now"
  have Tnow: "T \<le> now" using Cons.prems(3) te by simp
  from should_allow_event_effect [OF Cons.prems(1), of md5_hex now e]
  obtain st' b where eff: "should_allow_event md5_hex st now e = Some (st', b)" "dedup_wf st'"
    "\<And>s. timestamps_of st' s =
           (if s = sg0 \<and> b then timestamps_of st1 s @ [now] else timestamps_of st1 s)"
    "window_seconds st' = W" "max_similar_events st' = L"
    "b \<and> usd_value_of e < 10000 \<longrightarrow> recent_count st1 now sg0 < L"
    unfolding W_def L_def sg0_def st1_def by blast
  define new where "new = (\<lambda>sg. if b \<and> usd_value_of e < 10000 \<and> sg0 = sg then [now] else [])"
  define std1 where "std1 = (\<lambda>sg. std0 sg @ new sg)"
  have dom1: "length (filter (\<lambda>t. c < t) (std0 sg)) \<le> length (filter (\<lambda>t. c < t) (timestamps_of st1 sg))"
    if "now - W \<le> c" for sg c
  proof -
    have "T - W \<le> c" using that Tnow by simp
    then have "length (filter (\<lambda>t. c < t) (std0 sg)) \<le> length (filter (\<lambda>t. c < t) (timestamps_of st sg))"
      using Cons.prems(4) unfolding W_def by blast
    also have "filter (\<lambda>t. c < t) (timestamps_of st sg) = filter (\<lambda>t. c < t) (timestamps_of st1 sg)"
      unfolding st1_def using cleanup_recent [OF Cons.prems(1), of now c sg] that
      unfolding W_def by simp
    finally show ?thesis .
  qed
  have sorted': "sorted (map fst tes)" using Cons.prems(2) by simp
  have after': "\<forall>te \<in> set tes. now \<le> fst te" using Cons.prems(2) te by simp
  have dom': "\<forall>sg c. now - window_seconds st' \<le> c \<longrightarrow>
           length (filter (\<lambda>t. c < t) (std1 sg)) \<le> length (filter (\<lambda>t. c < t) (timestamps_of st' sg))"
  proof (intro allI impI)
    fix sg c assume c: "now - window_seconds st' \<le> c"
    then have c': "now - W \<le> c" by (simp add: eff(4))
    show "length (filter (\<lambda>t. c < t) (std1 sg)) \<le> length (filter (\<lambda>t. c < t) (timestamps_of st' sg))"
      using dom1 [OF c', of sg] by (auto simp: std1_def new_def eff(3))
  qed
  have cap': "\<forall>sg a. int (length (filter (\<lambda>t. a < t \<and> t \<le> a + window_seconds st') (std1 sg)))
           \<le> max_similar_events st'"
  proof (intro allI)
    fix sg a
    have old: "int (length (filter (\<lambda>t. a < t \<and> t \<le> a + W) (std0 sg))) \<le> L"
      using Cons.prems(5) unfolding W_def L_def by blast
    show "int (length (filter (\<lambda>t. a < t \<and> t \<le> a + window_seconds st') (std1 sg)))
           \<le> max_similar_events st'"
    proof (cases "new sg = [] \<or> \<not> (a < now \<and> now \<le> a + W)")
      case True
      then have "filter (\<lambda>t. a < t \<and> t \<le> a + W) (std1 sg) = filter (\<lambda>t. a < t \<and> t \<le> a + W) (std0 sg)"
        by (auto simp: std1_def new_def)
      with old show ?thesis by (simp add: eff(4,5))
    next
      case False
      then have n: "new sg = [now]" and adm: "b" "usd_value_of e < 10000" and sg: "sg = sg0"
        and inw: "a < now" "now \<le> a + W"
        by (auto simp: new_def split: if_splits)
      have rc: "recent_count st1 now sg0 < L" using eff(6) adm by simp
      have "length (filter (\<lambda>t. a < t \<and> t \<le> a + W) (std0 sg)) \<le> length (filter (\<lambda>t. a < t) (std0 sg))"
        by (rule length_filter_mono) simp
      also have "\<dots> \<le> length (filter (\<lambda>t. a < t) (timestamps_of st1 sg))"
        using dom1 [of a sg] inw by simp
      also have "\<dots> \<le> length (filter (\<lambda>ts. now - ts \<le> W) (timestamps_of st1 sg))"
        by (rule length_filter_mono) (use inw in simp)
      finally have "int (length (filter (\<lambda>t. a < t \<and> t \<le> a + W) (std0 sg))) \<le> recent_count st1 now sg0"
        unfolding recent_count_def sg st1_def W_def by (simp add: cleanup_params)
      with rc have "int (length (filter (\<lambda>t. a < t \<and> t \<le> a + W) (std0 sg))) + 1 \<le> L" by simp
      moreover have "filter (\<lambda>t. a < t \<and> t \<le> a + W) (std1 sg) =
          filter (\<lambda>t. a < t \<and> t \<le> a + W) (std0 sg) @ [now]"
        using n inw by (simp add: std1_def)
      ultimately show ?thesis by (simp add: eff(4,5))
    qed
  qed
  from Cons.IH [OF eff(2) sorted' after' dom' cap']
  obtain st'' bs where r: "run_events md5_hex st' tes = Some (st'', bs)" "length bs = length tes"
    "\<And>sg a. int (length (filter (\<lambda>t. a < t \<and> t \<le> a + W)
                           (std1 sg @ standard_admissions md5_hex tes bs sg))) \<le> L"
    unfolding eff(4,5) by blast
  have run: "run_events md5_hex st (te # tes) = Some (st'', b # bs)"
    using eff(1) r(1) te by simp
  have split: "std0 sg @ standard_admissions md5_hex (te # tes) (b # bs) sg =
      std1 sg @ standard_admissions md5_hex tes bs sg" for sg
    unfolding te standard_admissions_Cons std1_def new_def sg0_def by simp
  show ?case
    apply (rule exI [of _ st''], rule exI [of _ "b # bs"])
    using run r(2) r(3) unfolding split W_def L_def by simp
qed

text \<open>
  Windows open on the left. Start from a fresh object with a non-negative limit and call
  \<^verbatim>\<open>should_allow_event\<close> at non-decreasing clock readings. Every call returns, and for
  every signature and every window (a, a + window_seconds] the admissions of the
  standard tier (values below 10000) with that signature and a clock reading in the window
  number at most the limit, whatever medium-value and high-value admissions fall into it.
\<close>

lemma standard_tier_cap_half_open:
  assumes "0 \<le> limit" and "sorted (map fst tes)"
  shows "\<exists>st' bs. run_events md5_hex (EventDeduplicator t0 window limit) tes = Some (st', bs)
     \<and> length bs = length tes
     \<and> (\<forall>sg a. int (length (filter (\<lambda>t. a < t \<and> t \<le> a + window)
                           (standard_admissions md5_hex tes bs sg))) \<le> limit)"
proof -
  let ?st = "EventDeduplicator t0 window limit"
  have wf: "dedup_wf ?st" by (simp add: dedup_wf_def EventDeduplicator_def)
  have w: "window_seconds ?st = window" and l: "max_similar_events ?st = limit"
    by (simp_all add: EventDeduplicator_def)
  obtain T where T: "\<forall>te \<in> set tes. T \<le> fst te"
  proof (cases tes)
    case Nil
    then show ?thesis using that [of 0] by simp
  next
    case (Cons te tes')
    with assms(2) have "\<forall>te' \<in> set tes. fst te \<le> fst te'" by auto
    then show ?thesis using that by blast
  qed
  have dom: "\<forall>sg c. T - window_seconds ?st \<le> c \<longrightarrow>
           length (filter (\<lambda>t. c < t) ((\<lambda>sg. []) sg)) \<le> length (filter (\<lambda>t. c < t) (timestamps_of ?st sg))"
    by simp
  have cap: "\<forall>sg a. int (length (filter (\<lambda>t. a < t \<and> t \<le> a + window_seconds ?st) ((\<lambda>sg. []) sg)))
           \<le> max_similar_events ?st"
    using assms(1) by (simp add: l)
  from run_events_window_cap [OF wf assms(2) T dom cap, of md5_hex]
  show ?thesis unfolding w l by simp
qed

lemma standard_tier_cap_half_open_example:
  "(0::int) \<le> 2 \<and> sorted (map fst scenario_b)
   \<and> (\<exists>st'. run_events rev (EventDeduplicator 1000 180 2) scenario_b =
          Some (st', [True, True, False, False, False]))
   \<and> int (length (filter (\<lambda>t. 1000 < t \<and> t \<le> 1000 + 180)
        (standard_admissions rev scenario_b [True, True, False, False, False]
           (generate_signature rev 1001 (doge_fill 5))))) = 2"
proof -
  have s: "sorted (map fst scenario_b)" by (simp add: scenario_b_def)
  from standard_tier_cap_half_open [OF _ s, of 2 rev 1000 180]
  obtain st' bs where r: "run_events rev (EventDeduplicator 1000 180 2) scenario_b = Some (st', bs)"
    by auto
  from scenario_b_run [of rev]
  have e: "\<exists>st'. run_events rev (EventDeduplicator 1000 180 2) scenario_b =
          Some (st', [True, True, False, False, False])"
    by (auto simp: event_deduplicator_def)
  have c: "int (length (filter (\<lambda>t. 1000 < t \<and> t \<le> 1000 + 180)
        (standard_admissions rev scenario_b [True, True, False, False, False]
           (generate_signature rev 1001 (doge_fill 5))))) = 2"
    by (simp add: standard_admissions_def scenario_b_def generate_signature_def time_bucket_def
        usd_value_of_def doge_fill_def)
  from s r e c show ?thesis by simp
qed

lemma large_signature_differs:
  "generate_signature rev 1120 (doge_fill 60000) \<noteq> scenario_b_signature rev"
  "scenario_b_signature rev \<noteq> generate_signature rev 1120 (doge_fill 60000)"
  by (simp_all add: scenario_b_signature_def generate_signature_def doge_fill_reads
      signature_data_def value_range_def time_bucket_interval [where k = 3] str_int_def
      str_nat.simps [of 3])



lemma boundary_fills_run:
  "\<exists>st'. run_events rev (event_deduplicator 1000) boundary_fills = Some (st', [True, True, True])"
proof -
  define sg where "sg = scenario_b_signature rev"
  define w where "w = ''0xDEF4567890abcdef''"
  define s1 where "s1 = (event_deduplicator 1000)\<lparr>event_signatures := [(sg, [1000])],
        suppressed_events := [(sg, [])], wallet_event_counts := [w \<mapsto> 1]\<rparr>"
  define s2 where "s2 = (event_deduplicator 1000)\<lparr>event_signatures := [(sg, [1000, 1000])],
        suppressed_events := [(sg, [])], wallet_event_counts := [w \<mapsto> 2]\<rparr>"
  define s3 where "s3 = (event_deduplicator 1000)\<lparr>event_signatures := [(sg, [1180])],
        suppressed_events := [(sg, [])], wallet_event_counts := [w \<mapsto> 3], last_cleanup := 1180\<rparr>"
  have 1: "should_allow_event rev (event_deduplicator 1000) 1000 (doge_fill 5) = Some (s1, True)"
    unfolding s1_def sg_def w_def by (simp add: scenario_b_signature_eq dedup_eval)
  have 2: "should_allow_event rev s1 1000 (doge_fill 5) = Some (s2, True)"
    unfolding s1_def s2_def sg_def w_def by (simp add: scenario_b_signature_eq dedup_eval)
  have 3: "should_allow_event rev s2 1180 (doge_fill 5) = Some (s3, True)"
    unfolding s2_def s3_def sg_def w_def by (simp add: scenario_b_signature_eq dedup_eval)
  show ?thesis
    unfolding boundary_fills_def by (simp add: 1 2 3)
qed


lemma boundary_fills_after_cleanup_run:
  "\<exists>st'. run_events rev (event_deduplicator 1000) boundary_fills_after_cleanup =
     Some (st', [True, True, True, False])"
proof -
  define sg where "sg = scenario_b_signature rev"
  define lg where "lg = generate_signature rev 1120 (doge_fill 60000)"
  define w where "w = ''0xDEF4567890abcdef''"
  define s1 where "s1 = (event_deduplicator 1000)\<lparr>event_signatures := [(sg, [1000])],
        suppressed_events := [(sg, [])], wallet_event_counts := [w \<mapsto> 1]\<rparr>"
  define s2 where "s2 = (event_deduplicator 1000)\<lparr>event_signatures := [(sg, [1000, 1000])],
        suppressed_events := [(sg, [])], wallet_event_counts := [w \<mapsto> 2]\<rparr>"
  define s3 where "s3 = (event_deduplicator 1000)\<lparr>event_signatures := [(sg, [1000, 1000]), (lg, [1120])],
        suppressed_events := [(sg, []), (lg, [])], wallet_event_counts := [w \<mapsto> 2],
        last_cleanup := 1120\<rparr>"
  define s4 where "s4 = s3\<lparr>suppressed_events := [(sg, [doge_fill 5]), (lg, [])]\<rparr>"
  have ne: "lg \<noteq> sg" "sg \<noteq> lg"
    unfolding lg_def sg_def by (rule large_signature_differs)+
  have 1: "should_allow_event rev (event_deduplicator 1000) 1000 (doge_fill 5) = Some (s1, True)"
    unfolding s1_def sg_def w_def by (simp add: scenario_b_signature_eq dedup_eval)
  have 2: "should_allow_event rev s1 1000 (doge_fill 5) = Some (s2, True)"
    unfolding s1_def s2_def sg_def w_def by (simp add: scenario_b_signature_eq dedup_eval)
  have 3: "should_allow_event rev s2 1120 (doge_fill 60000) = Some (s3, True)"
    unfolding s2_def s3_def w_def lg_def [symmetric] using ne
    by (simp add: lg_def [symmetric] dedup_eval)
  have 4: "should_allow_event rev s3 1180 (doge_fill 5) = Some (s4, False)"
    unfolding s3_def s4_def w_def using ne
    by (simp add: scenario_b_signature_eq sg_def [symmetric] dedup_eval)
  show ?thesis
    unfolding boundary_fills_after_cleanup_def by (simp add: 1 2 3 4)
qed

lemma boundary_admissions:
  "standard_admissions rev boundary_fills [True, True, True] (scenario_b_signature rev) =
     [1000, 1000, 1180]"
  by (simp add: boundary_fills_def standard_admissions_def scenario_b_signature_eq doge_fill_reads)

text \<open>
  C4 on the code. The module's object (window 180, limit 2), built at 1000, sees two
  5 dollar fills of one signature at clock reading 1000 and a third at 1180. The third
  call runs the cleanup, which keeps only timestamps with \<^verbatim>\<open>ts > cutoff\<close> (line 89) and
  so drops both timestamps equal to the cutoff 1000; the count of line 128, which would
  have kept them (\<^verbatim>\<open>now - ts <= window_seconds\<close>), finds none, and the third fill is
  admitted: three admissions of the standard tier in the window [1000, 1180] of length
  180. When the cleanup has already run at 1120, it does not run again at 1180, both
  timestamps are counted and the same third fill is rejected.
\<close>

theorem C4_third_admission_at_window_boundary:
  "(\<exists>st'. run_events rev (event_deduplicator 1000) boundary_fills = Some (st', [True, True, True]))
   \<and> standard_admissions rev boundary_fills [True, True, True] (scenario_b_signature rev) =
       [1000, 1000, 1180]
   \<and> int (length (filter (\<lambda>t. 1000 \<le> t \<and> t \<le> 1000 + window_seconds (event_deduplicator 1000))
        (standard_admissions rev boundary_fills [True, True, True] (scenario_b_signature rev))))
       > max_similar_events (event_deduplicator 1000)
   \<and> (\<exists>st'. run_events rev (event_deduplicator 1000) boundary_fills_after_cleanup =
          Some (st', [True, True, True, False]))"
proof -
  have c: "int (length (filter (\<lambda>t. 1000 \<le> t \<and> t \<le> 1000 + window_seconds (event_deduplicator 1000))
        (standard_admissions rev boundary_fills [True, True, True] (scenario_b_signature rev))))
       > max_similar_events (event_deduplicator 1000)"
    unfolding boundary_admissions by (simp add: event_deduplicator_def EventDeduplicator_def)
  from boundary_fills_run boundary_admissions c boundary_fills_after_cleanup_run
  show ?thesis by blast
qed

subsection \<open>Summaries of suppressed events\<close>

lemma get_suppressed_summary_eq:
  "get_suppressed_summary st k = summarize (window_seconds st) (suppressed_of st k)"
  by (simp add: get_suppressed_summary_def suppressed_of_def summarize_def split: option.splits)

lemma summarize_None: "summarize w evs = None \<longleftrightarrow> evs = []"
  by (simp add: summarize_def Let_def split: list.splits)

lemma summarize_count: "summarize w evs = Some s \<Longrightarrow> suppressed_count s = length evs"
  by (auto simp: summarize_def Let_def split: list.splits)

lemma pending_cong:
  "(\<forall>k \<in> set ks. f k = g k) \<Longrightarrow>
   map (\<lambda>k. F (f k)) (filter (\<lambda>k. P (f k)) ks) = map (\<lambda>k. F (g k)) (filter (\<lambda>k. P (g k)) ks)"
  by (induction ks) auto

lemma cleared_suppressed:
  "suppressed_of (cleared st k) s = (if s = k then [] else suppressed_of st s)"
  by (simp add: cleared_def suppressed_of_def AList.update_conv')

lemma cleared_params:
  "window_seconds (cleared st k) = window_seconds st"
  "last_summary_time (cleared st k) = last_summary_time st"
  by (simp_all add: cleared_def)

lemma summaries_loop_step:
  "summaries_loop st (k # ks) acc =
     (if 3 \<le> length (suppressed_of st k)
      then summaries_loop (cleared st k) ks
             (acc @ [the (summarize (window_seconds st) (suppressed_of st k))])
      else summaries_loop st ks acc)"
proof (cases "summarize (window_seconds st) (suppressed_of st k)")
  case None
  then have "suppressed_of st k = []" by (simp add: summarize_None)
  with None show ?thesis by (simp add: get_suppressed_summary_eq)
next
  case (Some s)
  from summarize_count [OF Some] Some show ?thesis
    by (simp add: get_suppressed_summary_eq cleared_def)
qed

lemma summaries_loop_out:
  "distinct ks \<Longrightarrow>
   snd (summaries_loop st ks acc) =
     acc @ map (\<lambda>k. the (summarize (window_seconds st) (suppressed_of st k)))
             (filter (\<lambda>k. 3 \<le> length (suppressed_of st k)) ks)"
proof (induction ks arbitrary: st acc)
  case Nil
  then show ?case by simp
next
  case (Cons k ks)
  from Cons.prems have d: "distinct ks" and notin: "k \<notin> set ks" by simp_all
  have same: "\<forall>k' \<in> set ks. suppressed_of (cleared st k) k' = suppressed_of st k'"
    using notin by (auto simp: cleared_suppressed)
  show ?case
  proof (cases "3 \<le> length (suppressed_of st k)")
    case True
    have "snd (summaries_loop st (k # ks) acc) =
        (acc @ [the (summarize (window_seconds st) (suppressed_of st k))]) @
          map (\<lambda>k'. the (summarize (window_seconds st) (suppressed_of (cleared st k) k')))
            (filter (\<lambda>k'. 3 \<le> length (suppressed_of (cleared st k) k')) ks)"
      using True Cons.IH [OF d, of "cleared st k"]
      by (simp only: summaries_loop_step if_True cleared_params)
    also have "map (\<lambda>k'. the (summarize (window_seconds st) (suppressed_of (cleared st k) k')))
            (filter (\<lambda>k'. 3 \<le> length (suppressed_of (cleared st k) k')) ks) =
          map (\<lambda>k'. the (summarize (window_seconds st) (suppressed_of st k')))
            (filter (\<lambda>k'. 3 \<le> length (suppressed_of st k')) ks)"
      by (rule pending_cong [OF same, where F = "\<lambda>evs. the (summarize (window_seconds st) evs)"
            and P = "\<lambda>evs. 3 \<le> length evs"])
    finally show ?thesis using True by simp
  next
    case False
    then show ?thesis
      using Cons.IH [OF d, of st acc] by (simp only: summaries_loop_step if_False) simp
  qed
qed

lemma summaries_loop_suppressed:
  "distinct ks \<Longrightarrow>
   suppressed_of (fst (summaries_loop st ks acc)) s =
     (if s \<in> set ks \<and> 3 \<le> length (suppressed_of st s) then [] else suppressed_of st s)"
proof (induction ks arbitrary: st acc)
  case Nil
  then show ?case by simp
next
  case (Cons k ks)
  from Cons.prems have d: "distinct ks" and notin: "k \<notin> set ks" by simp_all
  show ?case
  proof (cases "3 \<le> length (suppressed_of st k)")
    case True
    then show ?thesis
      using Cons.IH [OF d, of "cleared st k"] notin
      by (simp only: summaries_loop_step if_True) (auto simp: cleared_suppressed)
  next
    case False
    then show ?thesis
      using Cons.IH [OF d, of st acc]
      by (simp only: summaries_loop_step if_False) auto
  qed
qed

lemma summaries_loop_time:
  "last_summary_time (fst (summaries_loop st ks acc)) = last_summary_time st"
proof (induction ks arbitrary: st acc)
  case Nil
  then show ?case by simp
next
  case (Cons k ks)
  show ?case
    by (simp only: summaries_loop_step Cons.IH cleared_params split: if_split) simp
qed

lemma keys_to_items:
  assumes "distinct (map fst xs)"
  shows "map (\<lambda>k. F (case map_of xs k of Some v \<Rightarrow> v | None \<Rightarrow> d))
           (filter (\<lambda>k. P (case map_of xs k of Some v \<Rightarrow> v | None \<Rightarrow> d)) (map fst xs)) =
         map (\<lambda>(k, v). F v) (filter (\<lambda>(k, v). P v) xs)"
proof -
  have look: "\<forall>x \<in> set xs. (case map_of xs (fst x) of Some v \<Rightarrow> v | None \<Rightarrow> d) = snd x"
    using assms by auto
  have "filter (\<lambda>k. P (case map_of xs k of Some v \<Rightarrow> v | None \<Rightarrow> d)) (map fst xs) =
        map fst (filter (\<lambda>x. P (snd x)) xs)"
    unfolding filter_map comp_def
    by (rule arg_cong [where f = "map fst"], rule filter_cong) (use look in auto)
  moreover have "map (\<lambda>k. F (case map_of xs k of Some v \<Rightarrow> v | None \<Rightarrow> d))
        (map fst (filter (\<lambda>x. P (snd x)) xs)) = map (\<lambda>x. F (snd x)) (filter (\<lambda>x. P (snd x)) xs)"
    unfolding map_map comp_def
    by (rule map_cong) (use look in auto)
  ultimately show ?thesis by (simp add: case_prod_unfold)
qed

text \<open>
  C7. \<^verbatim>\<open>get_all_suppressed_summaries\<close> returns nothing and changes nothing while fewer
  than \<^verbatim>\<open>summary_interval\<close> = 300 seconds have passed since \<^verbatim>\<open>last_summary_time\<close>.
  Otherwise it returns, in the order of \<^verbatim>\<open>suppressed_events\<close>, exactly one summary for
  each signature whose suppressed list holds at least 3 events, empties exactly those
  lists, and sets \<^verbatim>\<open>last_summary_time\<close> to the clock when it returned a summary. A
  summary holds the wallet of the first event, the number of events, their total value,
  the set of their coins, the set of their types and the label by count (10 or more
  High, 5 or more Moderate, else Similar). Scenario B: of five 5 dollar DOGE fills of one
  wallet within ten seconds the first two are admitted and three suppressed, and the
  call 300 seconds after construction returns one summary, with count 3.
\<close>

theorem C7_periodic_summaries:
  assumes "distinct (map fst (suppressed_events st))"
  shows
   "(now - last_summary_time st < summary_interval st \<longrightarrow>
       get_all_suppressed_summaries st now = (st, []))
    \<and> (\<not> now - last_summary_time st < summary_interval st \<longrightarrow>
         snd (get_all_suppressed_summaries st now) =
           map (\<lambda>(sg, evs). the (summarize (window_seconds st) evs))
             (filter (\<lambda>(sg, evs). 3 \<le> length evs) (suppressed_events st))
       \<and> (\<forall>sg. suppressed_of (fst (get_all_suppressed_summaries st now)) sg =
             (if 3 \<le> length (suppressed_of st sg) then [] else suppressed_of st sg))
       \<and> last_summary_time (fst (get_all_suppressed_summaries st now)) =
            (if snd (get_all_suppressed_summaries st now) = [] then last_summary_time st else now))
    \<and> (evs \<noteq> [] \<longrightarrow>
         summarize w evs =
           Some \<lparr>sum_wallet = wallet_of (hd evs), suppressed_count = length evs,
                 event_types = set (map type_of evs), coins = set (map coin_of evs),
                 total_usd_value = sum_list (map usd_value_of evs), time_window = w,
                 activity_level =
                   (if 10 \<le> length evs then ''High Bot Activity''
                    else if 5 \<le> length evs then ''Moderate Bot Activity''
                    else ''Similar Events'')\<rparr>)
    \<and> summary_interval (EventDeduplicator t0 w limit) = 300
    \<and> (\<exists>st5. run_events md5_hex (event_deduplicator 1000) scenario_b =
           Some (st5, [True, True, False, False, False])
         \<and> map suppressed_count (snd (get_all_suppressed_summaries st5 1300)) = [3])"
proof -
  let ?r = "summaries_loop st (map fst (suppressed_events st)) []"
  have gate: "now - last_summary_time st < summary_interval st \<longrightarrow>
       get_all_suppressed_summaries st now = (st, [])"
    by (simp add: get_all_suppressed_summaries_def)
  have run: "get_all_suppressed_summaries st now =
      (if snd ?r \<noteq> [] then ((fst ?r)\<lparr>last_summary_time := now\<rparr>, snd ?r) else (fst ?r, snd ?r))"
    if "\<not> now - last_summary_time st < summary_interval st"
    using that by (simp add: get_all_suppressed_summaries_def split_beta Let_def)
  have out0: "snd ?r =
      map (\<lambda>k. the (summarize (window_seconds st) (suppressed_of st k)))
        (filter (\<lambda>k. 3 \<le> length (suppressed_of st k)) (map fst (suppressed_events st)))"
    using summaries_loop_out [OF assms, of st "[]"] by simp
  have out: "snd ?r =
      map (\<lambda>(sg, evs). the (summarize (window_seconds st) evs))
        (filter (\<lambda>(sg, evs). 3 \<le> length evs) (suppressed_events st))"
    unfolding out0 suppressed_of_def
    by (rule keys_to_items [OF assms, where F = "\<lambda>evs. the (summarize (window_seconds st) evs)"
          and P = "\<lambda>evs. 3 \<le> length evs"])
  have supp: "suppressed_of (fst ?r) sg =
      (if 3 \<le> length (suppressed_of st sg) then [] else suppressed_of st sg)" for sg
  proof (cases "sg \<in> set (map fst (suppressed_events st))")
    case True
    then show ?thesis using summaries_loop_suppressed [OF assms, of st "[]" sg] by simp
  next
    case False
    then have "suppressed_of st sg = []"
      by (simp add: suppressed_of_def map_of_absent)
    then show ?thesis using summaries_loop_suppressed [OF assms, of st "[]" sg] by simp
  qed
  have time: "last_summary_time (fst ?r) = last_summary_time st"
    by (rule summaries_loop_time)
  have runs: "\<not> now - last_summary_time st < summary_interval st \<longrightarrow>
         snd (get_all_suppressed_summaries st now) =
           map (\<lambda>(sg, evs). the (summarize (window_seconds st) evs))
             (filter (\<lambda>(sg, evs). 3 \<le> length evs) (suppressed_events st))
       \<and> (\<forall>sg. suppressed_of (fst (get_all_suppressed_summaries st now)) sg =
             (if 3 \<le> length (suppressed_of st sg) then [] else suppressed_of st sg))
       \<and> last_summary_time (fst (get_all_suppressed_summaries st now)) =
            (if snd (get_all_suppressed_summaries st now) = [] then last_summary_time st else now)"
  proof
    assume a: "\<not> now - last_summary_time st < summary_interval st"
    have s1: "snd (get_all_suppressed_summaries st now) = snd ?r"
      by (simp add: run [OF a])
    have s2: "suppressed_of (fst (get_all_suppressed_summaries st now)) sg = suppressed_of (fst ?r) sg" for sg
      by (simp add: run [OF a] suppressed_of_def)
    have s3: "last_summary_time (fst (get_all_suppressed_summaries st now)) =
        (if snd ?r = [] then last_summary_time st else now)"
      by (simp add: run [OF a] time)
    show "snd (get_all_suppressed_summaries st now) =
           map (\<lambda>(sg, evs). the (summarize (window_seconds st) evs))
             (filter (\<lambda>(sg, evs). 3 \<le> length evs) (suppressed_events st))
       \<and> (\<forall>sg. suppressed_of (fst (get_all_suppressed_summaries st now)) sg =
             (if 3 \<le> length (suppressed_of st sg) then [] else suppressed_of st sg))
       \<and> last_summary_time (fst (get_all_suppressed_summaries st now)) =
            (if snd (get_all_suppressed_summaries st now) = [] then last_summary_time st else now)"
      unfolding s1 s2 s3 using out supp by simp
  qed
  have fields: "evs \<noteq> [] \<longrightarrow>
         summarize w evs =
           Some \<lparr>sum_wallet = wallet_of (hd evs), suppressed_count = length evs,
                 event_types = set (map type_of evs), coins = set (map coin_of evs),
                 total_usd_value = sum_list (map usd_value_of evs), time_window = w,
                 activity_level =
                   (if 10 \<le> length evs then ''High Bot Activity''
                    else if 5 \<le> length evs then ''Moderate Bot Activity''
                    else ''Similar Events'')\<rparr>"
    by (cases evs) (simp_all add: summarize_def Let_def)
  have interval: "summary_interval (EventDeduplicator t0 w limit) = 300"
    by (simp add: EventDeduplicator_def)
  from gate runs fields interval scenario_b_run [of md5_hex] show ?thesis by blast
qed

theorem C7_periodic_summaries_witness:
  "distinct (map fst (suppressed_events bucket_example))
   \<and> get_all_suppressed_summaries bucket_example 1299 = (bucket_example, [])
   \<and> snd (get_all_suppressed_summaries bucket_example 1300) =
       [\<lparr>sum_wallet = ''0xDEF4567890abcdef'', suppressed_count = 3,
         event_types = {''user_fill''}, coins = {''DOGE''}, total_usd_value = 18,
         time_window = 180, activity_level = ''Similar Events''\<rparr>]
   \<and> suppressed_of (fst (get_all_suppressed_summaries bucket_example 1300)) ''a1b2'' = []
   \<and> suppressed_of (fst (get_all_suppressed_summaries bucket_example 1300)) ''c3d4'' = [doge_fill 8]
   \<and> last_summary_time (fst (get_all_suppressed_summaries bucket_example 1300)) = 1300"
  using C7_periodic_summaries [where st = bucket_example and now = 1300 and evs = "[doge_fill 5, doge_fill 6, doge_fill 7]"
      and w = 180 and md5_hex = rev]
    C7_periodic_summaries [where st = bucket_example and now = 1299 and evs = "[doge_fill 8]" and md5_hex = rev]
  by (simp add: bucket_example_def event_deduplicator_def EventDeduplicator_def suppressed_of_def
      doge_fill_def wallet_of_def coin_of_def type_of_def usd_value_of_def)

subsection \<open>The connect loop\<close>

text \<open>
  C3, as the code has it. In one iteration of the connect loop the counter of
  consecutive failures is set to zero as soon as the transport connection is
  established, before the subscriptions are attempted (line 444). After the iteration
  it is the old count plus one when the connection attempt raised; otherwise it is zero,
  or one when the subscriptions succeeded and the message loop ended by an exception. A
  connect that succeeds but whose subscription phase fails leaves the counter at zero,
  and the \<^verbatim>\<open>continue\<close> skips the backoff pause.
\<close>

theorem C3_counter_reset_on_connect:
  "(\<not> connect_ok env \<longrightarrow>
      fst (snd (connect_iteration watched env st n)) = n + 1)
   \<and> (connect_ok env \<longrightarrow>
      fst (snd (connect_iteration watched env st n)) =
        (if snd (subscribe_to_all_wallets watched env
                   (st\<lparr>connected := True, connection_healthy := True,
                       reconnect_count := reconnect_count st + 1\<rparr>))
            \<and> listen_raises env
         then 1 else 0))
   \<and> (connect_ok env \<and>
        \<not> snd (subscribe_to_all_wallets watched env
                 (st\<lparr>connected := True, connection_healthy := True,
                     reconnect_count := reconnect_count st + 1\<rparr>)) \<longrightarrow>
      snd (connect_iteration watched env st n) = (0, None))"
  by (simp add: connect_iteration_def Let_def split_beta)

theorem C3_counter_reset_on_connect_witness:
  "fst (snd (connect_iteration [''0xABC1234567''] (refusing_env\<lparr>connect_ok := False\<rparr>) HyperCoreClient 5)) = 6
   \<and> snd (connect_iteration [''0xABC1234567''] refusing_env HyperCoreClient 5) = (0, None)
   \<and> fst (snd (connect_iteration [''0xABC1234567'']
        (refusing_env\<lparr>send_ok := (\<lambda>wallet channel_type. True), listen_raises := True\<rparr>)
        HyperCoreClient 5)) = 1"
  using C3_counter_reset_on_connect [of "refusing_env\<lparr>connect_ok := False\<rparr>" "[''0xABC1234567'']" HyperCoreClient 5]
    C3_counter_reset_on_connect [of refusing_env "[''0xABC1234567'']" HyperCoreClient 5]
    C3_counter_reset_on_connect [of "refusing_env\<lparr>send_ok := (\<lambda>wallet channel_type. True), listen_raises := True\<rparr>"
      "[''0xABC1234567'']" HyperCoreClient 5]
  by (simp add: refusing_env_def HyperCoreClient_def subscribe_to_all_wallets_def channel_types_def
      subscribe_to_wallet_channel_def Let_def)

text \<open>
  C3 as stated fails: after five failures, a connection that is established but on
  which every subscription request raises ends the iteration with the counter at zero.
\<close>

theorem C3_reset_despite_failed_subscriptions:
  "connect_ok refusing_env
   \<and> \<not> snd (subscribe_to_all_wallets [''0xABC1234567''] refusing_env
        (HyperCoreClient\<lparr>connected := True, connection_healthy := True, reconnect_count := 1\<rparr>))
   \<and> fst (snd (connect_iteration [''0xABC1234567''] refusing_env HyperCoreClient 5)) = 0"
  by (simp add: connect_iteration_def refusing_env_def HyperCoreClient_def subscribe_to_all_wallets_def
      channel_types_def subscribe_to_wallet_channel_def Let_def)


subsection \<open>Wallet resolution and the watched-wallet filter\<close>

lemma process_single_event_watched:
  "x \<in> set (process_single_event py watched event_data wallet) \<Longrightarrow>
   is_watched_wallet py watched (snd x)"
  by (auto simp: process_single_event_def split: json.splits if_splits)

lemma process_item_watched:
  "x \<in> set (process_item py watched raw_event wallet item) \<Longrightarrow>
   is_watched_wallet py watched (snd x)"
  by (auto simp: process_item_def split: option.splits if_splits
      dest: process_single_event_watched)

lemma process_payload_watched:
  "x \<in> set (process_payload py watched raw_event wallet) \<Longrightarrow>
   is_watched_wallet py watched (snd x)"
  by (auto simp: process_payload_def split: json.splits
      dest: process_single_event_watched process_item_watched)

lemma process_resolved_watched:
  "x \<in> set (forwarded (process_resolved py watched raw_event wallet)) \<Longrightarrow>
   is_watched_wallet py watched (snd x)"
  by (auto simp: process_resolved_def forwarded_def split: if_splits
      dest: process_payload_watched)















end
